theory Spec2Isabelle
  imports Complex_Main "HOL-Library.Word"
begin

text \<open>
  A shallow embedding of the background-removal pipeline of \<^verbatim>\<open>script.js\<close>:
  \<^verbatim>\<open>processWatchImage\<close> (lines 321-390), its helpers \<^verbatim>\<open>addSample\<close>,
  \<^verbatim>\<open>calculateAverageColor\<close>, \<^verbatim>\<open>calculateColorVariance\<close> (lines 393-426),
  \<^verbatim>\<open>improvedWatchMask\<close> (lines 428-545) and \<^verbatim>\<open>floodFillHoles\<close> (lines 548-601).
  The canvas and DOM calls around the pixel loop are not part of the model: the model
  starts from the \<^verbatim>\<open>ImageData\<close> buffer and its width and height.
\<close>

section \<open>JavaScript numbers\<close>

text \<open>
  A JavaScript number is modelled as \<open>real option\<close>: \<open>Some x\<close> is the finite double
  \<open>x\<close>, as the real number it stands for, and \<open>None\<close> is \<^verbatim>\<open>NaN\<close>. An
  out-of-range read of an array gives \<^verbatim>\<open>undefined\<close>, which every arithmetic operation
  and comparison of this program turns into \<^verbatim>\<open>NaN\<close>, so \<open>None\<close> stands for
  \<^verbatim>\<open>undefined\<close> as well. The operations propagate \<open>None\<close>; a comparison with
  \<open>None\<close> is false. No division of the program has a zero divisor (each is by a
  literal or by a length checked to be positive).

  The operations \<open>nadd\<close>, \<open>nsub\<close>, \<open>nmul\<close>, \<open>ndiv\<close>, \<open>nsqrt\<close> are the exact
  ones. The program computes in IEEE doubles: each \<open>+\<close>, \<open>-\<close>, \<open>*\<close>, \<open>/\<close> and
  \<^verbatim>\<open>Math.sqrt\<close> returns the exact result rounded to the nearest double, and a decimal
  literal such as \<open>0.7\<close> is the double nearest to it. So every function below that
  does arithmetic takes the rounding \<open>fl\<close> as its first argument, and each operation
  of the source is the exact one followed by \<open>fl\<close> (\<open>fadd\<close>, \<open>fsub\<close>, \<open>fmul\<close>,
  \<open>fdiv\<close>, \<open>fsqrt\<close>). For the program as it runs, \<open>fl\<close> is \<open>binary64\<close>, defined
  below; \<open>fl = id\<close> is exact arithmetic.
  \<^verbatim>\<open>Math.min\<close>, \<^verbatim>\<open>Math.abs\<close>, the comparisons, the bytes of the buffer and the
  integer literals are exact in doubles and are not rounded.
\<close>

type_synonym jsnum = "real option"

definition lift2 :: "(real \<Rightarrow> real \<Rightarrow> real) \<Rightarrow> jsnum \<Rightarrow> jsnum \<Rightarrow> jsnum" where
  "lift2 f a c = (case a of None \<Rightarrow> None | Some x \<Rightarrow> (case c of None \<Rightarrow> None | Some y \<Rightarrow> Some (f x y)))"

definition nadd :: "jsnum \<Rightarrow> jsnum \<Rightarrow> jsnum" where "nadd = lift2 (+)"
definition nsub :: "jsnum \<Rightarrow> jsnum \<Rightarrow> jsnum" where "nsub = lift2 (-)"
definition nmul :: "jsnum \<Rightarrow> jsnum \<Rightarrow> jsnum" where "nmul = lift2 (*)"
definition ndiv :: "jsnum \<Rightarrow> jsnum \<Rightarrow> jsnum" where "ndiv = lift2 (/)"
definition nmin :: "jsnum \<Rightarrow> jsnum \<Rightarrow> jsnum" where "nmin = lift2 min"

definition nabs :: "jsnum \<Rightarrow> jsnum" where
  "nabs a = map_option abs a"

definition nsqrt :: "jsnum \<Rightarrow> jsnum" where
  "nsqrt a = (case a of None \<Rightarrow> None | Some x \<Rightarrow> if x < 0 then None else Some (sqrt x))"

definition ngt :: "jsnum \<Rightarrow> jsnum \<Rightarrow> bool" where
  "ngt a c = (case a of None \<Rightarrow> False | Some x \<Rightarrow> (case c of None \<Rightarrow> False | Some y \<Rightarrow> x > y))"

definition fadd :: "(real \<Rightarrow> real) \<Rightarrow> jsnum \<Rightarrow> jsnum \<Rightarrow> jsnum" where
  "fadd fl a c = map_option fl (nadd a c)"

definition fsub :: "(real \<Rightarrow> real) \<Rightarrow> jsnum \<Rightarrow> jsnum \<Rightarrow> jsnum" where
  "fsub fl a c = map_option fl (nsub a c)"

definition fmul :: "(real \<Rightarrow> real) \<Rightarrow> jsnum \<Rightarrow> jsnum \<Rightarrow> jsnum" where
  "fmul fl a c = map_option fl (nmul a c)"

definition fdiv :: "(real \<Rightarrow> real) \<Rightarrow> jsnum \<Rightarrow> jsnum \<Rightarrow> jsnum" where
  "fdiv fl a c = map_option fl (ndiv a c)"

definition fsqrt :: "(real \<Rightarrow> real) \<Rightarrow> jsnum \<Rightarrow> jsnum" where
  "fsqrt fl a = map_option fl (nsqrt a)"

text \<open>
  The rounding of the program as it runs: \<open>binary64\<close> sends a real number to the nearest
  number with a significand of 53 bits, and to the one with the even significand when
  two are equally near. Below \<open>2 powi (- 1022)\<close> the spacing stays
  \<open>2 powi (- 1074)\<close> (the subnormal numbers). There is no overflow in the model: the
  numbers of the pipeline are bounded by sums of squares of differences of bytes over the
  samples, far below \<open>2 ^ 1024\<close>. \<^verbatim>\<open>Math.sqrt\<close> is the correctly rounded square
  root.
\<close>

definition roundHalfEven :: "real \<Rightarrow> int" where
  "roundHalfEven x =
     (let f = \<lfloor>x\<rfloor> in
      if x - of_int f < 1 / 2 then f
      else if 1 / 2 < x - of_int f then f + 1
      else if even f then f else f + 1)"

definition binary64 :: "real \<Rightarrow> real" where
  "binary64 x =
     (if x = 0 then 0
      else let e = max (\<lfloor>log 2 \<bar>x\<bar>\<rfloor> - 52) (- 1074)
           in of_int (roundHalfEven (x / 2 powi e)) * 2 powi e)"

text \<open>
  What the proofs about the ring and the border band need of a rounding: it keeps
  \<open>0\<close> and it sends no number that is not negative to a negative one.
\<close>

definition keepsSign :: "(real \<Rightarrow> real) \<Rightarrow> bool" where
  "keepsSign fl \<longleftrightarrow> fl 0 = 0 \<and> (\<forall>x. 0 \<le> x \<longrightarrow> 0 \<le> fl x)"

text \<open>
  What the proofs about concrete and uniform images need: moreover the rounding is exact
  on the integers of magnitude at most \<open>N\<close>, and it moves no number \<open>x\<close> by more than
  \<open>(\<bar>x\<bar> + 1) / 2 ^ 20\<close>. The identity has these properties for every \<open>N\<close>, and
  \<open>binary64\<close> for \<open>N < 2 ^ 53\<close>.
\<close>

definition accurate :: "(real \<Rightarrow> real) \<Rightarrow> nat \<Rightarrow> bool" where
  "accurate fl N \<longleftrightarrow>
     fl 0 = 0 \<and> (\<forall>x. 0 \<le> x \<longrightarrow> 0 \<le> fl x) \<and>
     (\<forall>z. \<bar>z\<bar> \<le> int N \<longrightarrow> fl (of_int z) = of_int z) \<and>
     (\<forall>x. \<bar>fl x - x\<bar> \<le> (\<bar>x\<bar> + 1) / 2 ^ 20)"

section \<open>Pixel buffer and border sampler (lines 337-353, 393-400)\<close>

text \<open>
  \<^verbatim>\<open>imageData.data\<close> is a \<^verbatim>\<open>Uint8ClampedArray\<close>: a list of bytes, four per pixel.
  Reading it outside \<open>0 \<le> i < length\<close> gives \<^verbatim>\<open>undefined\<close>.
\<close>

type_synonym pixels = "8 word list"

definition get :: "pixels \<Rightarrow> int \<Rightarrow> jsnum" where
  "get data i = (if 0 \<le> i \<and> i < int (length data) then Some (real (unat (data ! nat i))) else None)"

record color =
  r :: jsnum
  g :: jsnum
  b :: jsnum

definition addSample :: "color list \<Rightarrow> int \<Rightarrow> int \<Rightarrow> nat \<Rightarrow> pixels \<Rightarrow> color list" where
  "addSample samples x y width data =
     (let idx = (y * int width + x) * 4 in
      samples @ [\<lparr>r = get data idx, g = get data (idx + 1), b = get data (idx + 2)\<rparr>])"

text \<open>
  \<^verbatim>\<open>Math.max(10, Math.floor(Math.min(width, height) * 0.03))\<close>. The double nearest to
  \<open>0.03\<close> is below it by less than \<open>4 * 10^-17\<close> relatively, so the rounded product
  has the floor of the exact \<open>3 * m / 100\<close> for every image size.
\<close>

definition borderWidth :: "nat \<Rightarrow> nat \<Rightarrow> nat" where
  "borderWidth w h = max 10 ((min w h * 3) div 100)"

text \<open>
  The positions passed to \<^verbatim>\<open>addSample\<close>, in the order of the calls: the loop over
  the top and bottom bands (\<open>x\<close> outside, \<open>y\<close> inside), then the loop over the left
  and right bands (\<open>y\<close> outside, \<open>x\<close> inside).
\<close>

definition sampleCoords :: "nat \<Rightarrow> nat \<Rightarrow> (int \<times> int) list" where
  "sampleCoords w h =
     (let borderWidth = borderWidth w h in
      concat (map (\<lambda>(x, y). [(int x, int y), (int x, int h - int y - 1)])
                [(x, y). x \<leftarrow> [0..<w], y \<leftarrow> [0..<borderWidth]]) @
      concat (map (\<lambda>(x, y). [(int x, int y), (int w - int x - 1, int y)])
                [(x, y). y \<leftarrow> [borderWidth..<h - borderWidth], x \<leftarrow> [0..<borderWidth]]))"

definition collectSamples :: "pixels \<Rightarrow> nat \<Rightarrow> nat \<Rightarrow> color list" where
  "collectSamples data w h =
     foldl (\<lambda>samples (x, y). addSample samples x y w data) [] (sampleCoords w h)"

section \<open>Background statistics and threshold (lines 355-361, 402-426)\<close>

definition calculateAverageColor :: "(real \<Rightarrow> real) \<Rightarrow> color list \<Rightarrow> color" where
  "calculateAverageColor fl samples =
     (if length samples = 0 then \<lparr>r = Some 0, g = Some 0, b = Some 0\<rparr>
      else
        let n = Some (real (length samples));
            (rs, gs, bs) = foldl (\<lambda>(rs, gs, bs) s. (fadd fl rs (r s), fadd fl gs (g s), fadd fl bs (b s)))
                             (Some 0, Some 0, Some 0) samples
        in \<lparr>r = fdiv fl rs n, g = fdiv fl gs n, b = fdiv fl bs n\<rparr>)"

definition calculateColorVariance :: "(real \<Rightarrow> real) \<Rightarrow> color list \<Rightarrow> color \<Rightarrow> jsnum" where
  "calculateColorVariance fl samples avg =
     (if length samples \<le> 1 then Some 0
      else
        let sumSquaredDiff =
              foldl (\<lambda>acc s.
                       let dr = fsub fl (r s) (r avg);
                           dg = fsub fl (g s) (g avg);
                           db = fsub fl (b s) (b avg)
                       in fadd fl acc (fadd fl (fadd fl (fmul fl dr dr) (fmul fl dg dg)) (fmul fl db db)))
                    (Some 0) samples
        in fdiv fl sumSquaredDiff (Some (real (length samples))))"

definition adaptiveThreshold :: "(real \<Rightarrow> real) \<Rightarrow> jsnum \<Rightarrow> jsnum" where
  "adaptiveThreshold fl colorVariance =
     fadd fl (Some 32) (fmul fl (fsqrt fl colorVariance) (Some (fl 0.7)))"

section \<open>Mask Builder (lines 428-495)\<close>

definition sobelX :: "real list" where
  "sobelX = [-1, 0, 1, -2, 0, 2, -1, 0, 1]"

definition sobelY :: "real list" where
  "sobelY = [-1, -2, -1, 0, 0, 0, 1, 2, 1]"

text \<open>The offsets \<open>(kx, ky)\<close> of the two nested kernel loops, \<open>ky\<close> outside.\<close>

definition kernelOffsets :: "(int \<times> int) list" where
  "kernelOffsets = [(kx, ky). ky \<leftarrow> [-1, 0, 1], kx \<leftarrow> [-1, 0, 1]]"

text \<open>The pixels of the two nested loops \<open>1 \<le> y < height - 1\<close>, \<open>1 \<le> x < width - 1\<close>.\<close>

definition interior :: "nat \<Rightarrow> nat \<Rightarrow> (nat \<times> nat) list" where
  "interior w h = [(x, y). y \<leftarrow> [1..<h - 1], x \<leftarrow> [1..<w - 1]]"

definition isGoldLike :: "(real \<Rightarrow> real) \<Rightarrow> pixels \<Rightarrow> int \<Rightarrow> bool" where
  "isGoldLike fl data idx \<longleftrightarrow>
     ngt (get data idx) (Some 180) \<and> ngt (get data (idx + 1)) (Some 140) \<and>
     ngt (get data idx) (fadd fl (get data (idx + 2)) (Some 30))"

definition colorDist :: "(real \<Rightarrow> real) \<Rightarrow> pixels \<Rightarrow> nat \<Rightarrow> color \<Rightarrow> nat \<Rightarrow> nat \<Rightarrow> jsnum" where
  "colorDist fl data w avgBg x y =
     (let pixelIndex = y * w + x;
          idx = int (pixelIndex * 4);
          rDiff = fsub fl (get data idx) (r avgBg);
          gDiff = fsub fl (get data (idx + 1)) (g avgBg);
          bDiff = fsub fl (get data (idx + 2)) (b avgBg);
          isGoldLike = isGoldLike fl data idx;
          rWeight = Some (fl (if isGoldLike then 0.2 else 0.3));
          gWeight = Some (fl (if isGoldLike then 0.2 else 0.59));
          bWeight = Some (fl (if isGoldLike then 0.6 else 0.11))
      in fsqrt fl (fadd fl (fadd fl (fmul fl (fmul fl rDiff rDiff) rWeight)
                                    (fmul fl (fmul fl gDiff gDiff) gWeight))
                           (fmul fl (fmul fl bDiff bDiff) bWeight)))"

definition gradStep ::
  "(real \<Rightarrow> real) \<Rightarrow> pixels \<Rightarrow> nat \<Rightarrow> nat \<Rightarrow> nat \<Rightarrow> jsnum \<times> jsnum \<Rightarrow> int \<times> int \<Rightarrow> jsnum \<times> jsnum" where
  "gradStep fl data w x y grad k =
     (case grad of (gradX, gradY) \<Rightarrow>
      case k of (kx, ky) \<Rightarrow>
        let neighborIdx = ((int y + ky) * int w + (int x + kx)) * 4;
            kernelIdx = nat ((ky + 1) * 3 + (kx + 1));
            intensity = fdiv fl (fadd fl (fadd fl (get data neighborIdx) (get data (neighborIdx + 1)))
                                         (get data (neighborIdx + 2))) (Some 3)
        in (fadd fl gradX (fmul fl intensity (Some (sobelX ! kernelIdx))),
            fadd fl gradY (fmul fl intensity (Some (sobelY ! kernelIdx)))))"

definition edgeMagnitude :: "(real \<Rightarrow> real) \<Rightarrow> pixels \<Rightarrow> nat \<Rightarrow> nat \<Rightarrow> nat \<Rightarrow> jsnum" where
  "edgeMagnitude fl data w x y =
     (case foldl (gradStep fl data w x y) (Some 0, Some 0) kernelOffsets of
        (gradX, gradY) \<Rightarrow> fsqrt fl (fadd fl (fmul fl gradX gradX) (fmul fl gradY gradY)))"

text \<open>
  The first pair of loops fills \<open>edgeMap\<close> and \<open>colorDistMap\<close>, both created with
  \<open>fill(0)\<close>, at the interior pixels.
\<close>

definition mapsStep ::
  "(real \<Rightarrow> real) \<Rightarrow> pixels \<Rightarrow> nat \<Rightarrow> color \<Rightarrow> jsnum list \<times> jsnum list \<Rightarrow> nat \<times> nat
     \<Rightarrow> jsnum list \<times> jsnum list" where
  "mapsStep fl data w avgBg maps p =
     (case maps of (edgeMap, colorDistMap) \<Rightarrow>
      case p of (x, y) \<Rightarrow>
        let pixelIndex = y * w + x in
        (edgeMap[pixelIndex := edgeMagnitude fl data w x y],
         colorDistMap[pixelIndex := colorDist fl data w avgBg x y]))"

definition computeMaps ::
  "(real \<Rightarrow> real) \<Rightarrow> pixels \<Rightarrow> nat \<Rightarrow> nat \<Rightarrow> color \<Rightarrow> jsnum list \<times> jsnum list" where
  "computeMaps fl data w h avgBg =
     foldl (mapsStep fl data w avgBg) (replicate (w * h) (Some 0), replicate (w * h) (Some 0))
       (interior w h)"

definition combinedMetric :: "(real \<Rightarrow> real) \<Rightarrow> jsnum \<Rightarrow> jsnum \<Rightarrow> jsnum" where
  "combinedMetric fl colorDistance edge =
     (let normalizedEdge = fdiv fl (nmin (Some 255) edge) (Some 255)
      in fadd fl colorDistance (fmul fl normalizedEdge (Some 80)))"

text \<open>
  The loop \<open>for i < width * height\<close> writes every entry of the mask, so the mask that
  \<^verbatim>\<open>processWatchImage\<close> passes in (all zero) is not an argument of the model.
\<close>

definition buildMask ::
  "(real \<Rightarrow> real) \<Rightarrow> pixels \<Rightarrow> nat \<Rightarrow> nat \<Rightarrow> color \<Rightarrow> jsnum \<Rightarrow> nat list" where
  "buildMask fl data w h avgBg threshold =
     (case computeMaps fl data w h avgBg of (edgeMap, colorDistMap) \<Rightarrow>
        map (\<lambda>i. if ngt (combinedMetric fl (colorDistMap ! i) (edgeMap ! i)) threshold then 1 else 0)
          [0..<w * h])"

section \<open>Mask Refiner (lines 497-541)\<close>

definition hasNeighbor :: "nat list \<Rightarrow> nat \<Rightarrow> nat \<Rightarrow> nat \<Rightarrow> bool" where
  "hasNeighbor msk w x y \<longleftrightarrow>
     list_ex (\<lambda>(kx, ky). msk ! nat ((int y + ky) * int w + (int x + kx)) = 1) kernelOffsets"

definition promotable :: "(real \<Rightarrow> real) \<Rightarrow> pixels \<Rightarrow> color \<Rightarrow> jsnum \<Rightarrow> nat \<Rightarrow> bool" where
  "promotable fl data avgBg threshold idx \<longleftrightarrow>
     (let dataIdx = int (idx * 4);
          rv = get data dataIdx;
          gv = get data (dataIdx + 1);
          bv = get data (dataIdx + 2);
          half = fdiv fl threshold (Some 2)
      in isGoldLike fl data dataIdx \<or>
         (ngt (nabs (fsub fl rv (r avgBg))) half \<or>
          ngt (nabs (fsub fl gv (g avgBg))) half \<or>
          ngt (nabs (fsub fl bv (b avgBg))) half))"

text \<open>
  One iteration of the dilation loop: it reads \<open>mask\<close> (here \<open>msk\<close>) and writes
  \<open>tempMask\<close>.
\<close>

definition dilateStep ::
  "(real \<Rightarrow> real) \<Rightarrow> pixels \<Rightarrow> nat \<Rightarrow> color \<Rightarrow> jsnum \<Rightarrow> nat list \<Rightarrow> nat list \<Rightarrow> nat \<times> nat
     \<Rightarrow> nat list" where
  "dilateStep fl data w avgBg threshold msk tempMask p =
     (case p of (x, y) \<Rightarrow>
        let idx = y * w + x in
        if msk ! idx = 0 \<and> hasNeighbor msk w x y \<and> promotable fl data avgBg threshold idx
        then tempMask[idx := 1] else tempMask)"

definition dilate ::
  "(real \<Rightarrow> real) \<Rightarrow> pixels \<Rightarrow> nat \<Rightarrow> color \<Rightarrow> jsnum \<Rightarrow> nat list \<Rightarrow> (nat \<times> nat) list
     \<Rightarrow> nat list" where
  "dilate fl data w avgBg threshold msk order =
     foldl (dilateStep fl data w avgBg threshold msk) msk order"

text \<open>\<open>tempMask = [...mask]\<close>, the dilation loop, and the copy back into \<open>mask\<close>.\<close>

definition refineMask ::
  "(real \<Rightarrow> real) \<Rightarrow> pixels \<Rightarrow> nat \<Rightarrow> nat \<Rightarrow> color \<Rightarrow> jsnum \<Rightarrow> nat list \<Rightarrow> nat list" where
  "refineMask fl data w h avgBg threshold msk =
     dilate fl data w avgBg threshold msk (interior w h)"

section \<open>Hole Filler: floodFillHoles (script.js, lines 548-601)\<close>

text \<open>
  A mask (\<open>msk\<close> below) is the JavaScript array of labels, one number per pixel, row-major:
  \<open>0\<close> is background, \<open>1\<close> is foreground. The arrays \<open>visited\<close> and
  \<open>isBackground\<close> are created with \<open>fill(false)\<close> and only ever set to
  \<open>true\<close>, so each is the set of indices that hold \<open>true\<close>.

  The two seeding loops push, for every column \<open>x\<close>, the top and the bottom pixel of
  the column, and for every row \<open>y\<close> strictly between the first and the last, the
  left and the right pixel of the row. When \<open>width\<close> or \<open>height\<close> is \<open>0\<close>
  the mask is empty and the last loop of the function, which runs over
  \<open>mask.length\<close>, does nothing, whatever the queue held.
\<close>

definition seeds :: "nat \<Rightarrow> nat \<Rightarrow> nat list" where
  "seeds w h =
     concat (map (\<lambda>x. [x, (h - 1) * w + x]) [0..<w]) @
     concat (map (\<lambda>y. [y * w, y * w + w - 1]) [1..<h - 1])"

definition directions :: "(int \<times> int) list" where
  "directions = [(-1, 0), (1, 0), (0, -1), (0, 1)]"

type_synonym ffstate = "nat list \<times> nat set \<times> nat set"

text \<open>The body of the loop over \<open>directions\<close>, for the pixel \<open>(x, y)\<close> taken from the queue.\<close>

definition visitNeighbor ::
  "nat list \<Rightarrow> nat \<Rightarrow> nat \<Rightarrow> nat \<Rightarrow> nat \<Rightarrow> ffstate \<Rightarrow> int \<times> int \<Rightarrow> ffstate" where
  "visitNeighbor msk w h x y s d =
     (case s of (queue, visited, isBackground) \<Rightarrow>
      case d of (dx, dy) \<Rightarrow>
        let nx = int x + dx; ny = int y + dy in
        if nx \<ge> 0 \<and> nx < int w \<and> ny \<ge> 0 \<and> ny < int h then
          let neighborIdx = nat (ny * int w + nx) in
          if neighborIdx \<notin> visited \<and> msk ! neighborIdx = 0 then
            (queue @ [neighborIdx], insert neighborIdx visited, insert neighborIdx isBackground)
          else s
        else s)"

definition ffmeasure :: "nat \<Rightarrow> nat \<Rightarrow> ffstate \<Rightarrow> nat" where
  "ffmeasure w h s = (case s of (queue, visited, isBackground) \<Rightarrow>
     2 * card ({..<w * h} - visited) + length queue)"

lemma visitNeighbor_measure:
  "ffmeasure w h (visitNeighbor msk w h x y s d) \<le> ffmeasure w h s"
proof -
  obtain queue visited isBackground where s: "s = (queue, visited, isBackground)"
    by (cases s) auto
  obtain dx dy where d: "d = (dx, dy)" by (cases d) auto
  define nx where "nx = int x + dx"
  define ny where "ny = int y + dy"
  define n where "n = nat (ny * int w + nx)"
  show ?thesis
  proof (cases "nx \<ge> 0 \<and> nx < int w \<and> ny \<ge> 0 \<and> ny < int h \<and> n \<notin> visited \<and> msk ! n = 0")
    case False
    then show ?thesis
      by (auto simp: visitNeighbor_def s d Let_def nx_def ny_def n_def)
  next
    case True
    then have "ny * int w + nx < int h * int w"
    proof -
      from True have "ny + 1 \<le> int h" by simp
      then have "(ny + 1) * int w \<le> int h * int w"
        by (rule mult_right_mono) simp
      with True show ?thesis by (simp add: algebra_simps)
    qed
    with True have "n < w * h"
      by (simp add: n_def nat_less_iff mult.commute)
    with True have mem: "n \<in> {..<w * h} - visited" by simp
    have "{..<w * h} - insert n visited = ({..<w * h} - visited) - {n}" by auto
    then have "card ({..<w * h} - insert n visited) = card ({..<w * h} - visited) - 1"
      using mem by simp
    moreover have "card ({..<w * h} - visited) > 0"
      using mem by (metis card_gt_0_iff empty_iff finite_Diff finite_lessThan)
    moreover have "visitNeighbor msk w h x y s d = (queue @ [n], insert n visited, insert n isBackground)"
      using True by (simp add: visitNeighbor_def s d Let_def nx_def ny_def n_def)
    ultimately show ?thesis
      by (simp add: ffmeasure_def s)
  qed
qed

lemma foldl_visitNeighbor_measure:
  "ffmeasure w h (foldl (visitNeighbor msk w h x y) s ds) \<le> ffmeasure w h s"
proof (induction ds arbitrary: s)
  case Nil
  show ?case by simp
next
  case (Cons d ds)
  have "ffmeasure w h (foldl (visitNeighbor msk w h x y) (visitNeighbor msk w h x y s d) ds)
          \<le> ffmeasure w h (visitNeighbor msk w h x y s d)"
    by (rule Cons.IH)
  also have "\<dots> \<le> ffmeasure w h s" by (rule visitNeighbor_measure)
  finally show ?case by simp
qed

text \<open>
  The \<open>while (queue.length > 0)\<close> loop: \<open>queue.shift()\<close> takes the head, the loop
  over \<open>directions\<close> appends the neighbours not yet visited whose label is \<open>0\<close>.
\<close>

function bfs :: "nat list \<Rightarrow> nat \<Rightarrow> nat \<Rightarrow> ffstate \<Rightarrow> nat set \<times> nat set" where
  "bfs msk w h ([], visited, isBackground) = (visited, isBackground)"
| "bfs msk w h (pixel # queue, visited, isBackground) =
     bfs msk w h
       (foldl (visitNeighbor msk w h (pixel mod w) (pixel div w))
          (queue, visited, isBackground) directions)"
  by pat_completeness auto
termination
proof (relation "measure (\<lambda>(msk, w, h, s). ffmeasure w h s)", goal_cases)
  case 1
  show ?case by simp
next
  case (2 msk w h pixel queue visited isBackground)
  have "ffmeasure w h (foldl (visitNeighbor msk w h (pixel mod w) (pixel div w))
          (queue, visited, isBackground) directions) \<le> ffmeasure w h (queue, visited, isBackground)"
    by (rule foldl_visitNeighbor_measure)
  also have "\<dots> < ffmeasure w h (pixel # queue, visited, isBackground)"
    by (simp add: ffmeasure_def)
  finally show ?case by simp
qed

definition floodFillHoles :: "nat list \<Rightarrow> nat \<Rightarrow> nat \<Rightarrow> nat list" where
  "floodFillHoles msk w h =
     (case bfs msk w h (seeds w h, set (seeds w h), set (seeds w h)) of
        (visited, isBackground) \<Rightarrow>
          map (\<lambda>i. if msk ! i = 0 \<and> i \<notin> isBackground then 1 else msk ! i) [0..<length msk])"


section \<open>The whole pipeline (lines 321-374, 428-545)\<close>

definition improvedWatchMask ::
  "(real \<Rightarrow> real) \<Rightarrow> pixels \<Rightarrow> nat \<Rightarrow> nat \<Rightarrow> color \<Rightarrow> jsnum \<Rightarrow> nat list" where
  "improvedWatchMask fl data w h avgBg threshold =
     floodFillHoles
       (refineMask fl data w h avgBg threshold (buildMask fl data w h avgBg threshold)) w h"

text \<open>
  The compositing loop \<open>for (i = 0; i < data.length; i += 4)\<close>, one iteration per
  pixel index \<open>i / 4\<close>. A read of \<open>mask\<close> past its end gives \<^verbatim>\<open>undefined\<close>, which
  is not \<open>=== 0\<close>; a write past the end of a typed array is ignored, as by list update.
\<close>

definition applyMaskStep :: "nat list \<Rightarrow> pixels \<Rightarrow> nat \<Rightarrow> pixels" where
  "applyMaskStep msk d pixelIndex =
     (if pixelIndex < length msk \<and> msk ! pixelIndex = 0 then d[pixelIndex * 4 + 3 := 0] else d)"

definition applyMask :: "pixels \<Rightarrow> nat list \<Rightarrow> pixels" where
  "applyMask data msk = foldl (applyMaskStep msk) data [0..<(length data + 3) div 4]"

definition avgBackground :: "(real \<Rightarrow> real) \<Rightarrow> pixels \<Rightarrow> nat \<Rightarrow> nat \<Rightarrow> color" where
  "avgBackground fl data w h = calculateAverageColor fl (collectSamples data w h)"

definition pipelineThreshold :: "(real \<Rightarrow> real) \<Rightarrow> pixels \<Rightarrow> nat \<Rightarrow> nat \<Rightarrow> jsnum" where
  "pipelineThreshold fl data w h =
     adaptiveThreshold fl
       (calculateColorVariance fl (collectSamples data w h) (avgBackground fl data w h))"

definition processWatchImage :: "(real \<Rightarrow> real) \<Rightarrow> pixels \<Rightarrow> nat \<Rightarrow> nat \<Rightarrow> pixels" where
  "processWatchImage fl data w h =
     applyMask data
       (improvedWatchMask fl data w h (avgBackground fl data w h) (pipelineThreshold fl data w h))"


section \<open>Notions of the specification\<close>

text \<open>
  The outermost one-pixel ring of a \<open>w \<times> h\<close> image, 4-adjacency of two pixel
  indices, and the set a 4-connected flood fill marks when it starts from every pixel
  of the ring: a pixel joins the set when it is on the ring, or when it is labeled
  \<open>0\<close> and 4-adjacent to a pixel of the set.
\<close>

definition onBorder :: "nat \<Rightarrow> nat \<Rightarrow> nat \<Rightarrow> bool" where
  "onBorder w h p \<longleftrightarrow> p < w * h \<and>
     (p mod w = 0 \<or> p mod w = w - 1 \<or> p div w = 0 \<or> p div w = h - 1)"

definition adjacent4 :: "nat \<Rightarrow> nat \<Rightarrow> nat \<Rightarrow> nat \<Rightarrow> bool" where
  "adjacent4 w h p n \<longleftrightarrow> p < w * h \<and> n < w * h \<and>
     ((p div w = n div w \<and> (p mod w = n mod w + 1 \<or> n mod w = p mod w + 1)) \<or>
      (p mod w = n mod w \<and> (p div w = n div w + 1 \<or> n div w = p div w + 1)))"

inductive_set reachable :: "nat list \<Rightarrow> nat \<Rightarrow> nat \<Rightarrow> nat set" for msk w h where
  border: "onBorder w h p \<Longrightarrow> p \<in> reachable msk w h"
| step: "p \<in> reachable msk w h \<Longrightarrow> adjacent4 w h p n \<Longrightarrow> msk ! n = 0 \<Longrightarrow> n \<in> reachable msk w h"


text \<open>
  The pixels strictly inside the outermost ring, 8-adjacency, the three colour
  channels of pixel \<open>p\<close> as numbers, the gold-like predicate of section 4.4
  (\<open>R > 180\<close>, \<open>G > 140\<close>, \<open>R > B + 30\<close>), and "some channel differs from the
  BackgroundColor by more than \<open>threshold / 2\<close>" of section 4.5, with the sum, the
  differences and the quotient rounded by \<open>fl\<close>.
\<close>

definition isInterior :: "nat \<Rightarrow> nat \<Rightarrow> nat \<Rightarrow> bool" where
  "isInterior w h p \<longleftrightarrow> p < w * h \<and> 1 \<le> p mod w \<and> p mod w < w - 1 \<and> 1 \<le> p div w \<and> p div w < h - 1"

definition adjacent8 :: "nat \<Rightarrow> nat \<Rightarrow> nat \<Rightarrow> nat \<Rightarrow> bool" where
  "adjacent8 w h p n \<longleftrightarrow> p < w * h \<and> n < w * h \<and> n \<noteq> p \<and>
     n mod w \<le> p mod w + 1 \<and> p mod w \<le> n mod w + 1 \<and>
     n div w \<le> p div w + 1 \<and> p div w \<le> n div w + 1"

definition chanR :: "pixels \<Rightarrow> nat \<Rightarrow> real" where "chanR data p = real (unat (data ! (4 * p)))"
definition chanG :: "pixels \<Rightarrow> nat \<Rightarrow> real" where "chanG data p = real (unat (data ! (4 * p + 1)))"
definition chanB :: "pixels \<Rightarrow> nat \<Rightarrow> real" where "chanB data p = real (unat (data ! (4 * p + 2)))"

definition goldLike :: "(real \<Rightarrow> real) \<Rightarrow> pixels \<Rightarrow> nat \<Rightarrow> bool" where
  "goldLike fl data p \<longleftrightarrow>
     chanR data p > 180 \<and> chanG data p > 140 \<and> chanR data p > fl (chanB data p + 30)"

definition deviates :: "(real \<Rightarrow> real) \<Rightarrow> pixels \<Rightarrow> color \<Rightarrow> jsnum \<Rightarrow> nat \<Rightarrow> bool" where
  "deviates fl data avgBg threshold p \<longleftrightarrow>
     ngt (nabs (fsub fl (Some (chanR data p)) (r avgBg))) (fdiv fl threshold (Some 2)) \<or>
     ngt (nabs (fsub fl (Some (chanG data p)) (g avgBg))) (fdiv fl threshold (Some 2)) \<or>
     ngt (nabs (fsub fl (Some (chanB data p)) (b avgBg))) (fdiv fl threshold (Some 2))"

text \<open>
  Section 4.4 in its own words, each operation rounded by \<open>fl\<close>: the mean intensity
  \<open>(R + G + B) / 3\<close> of a pixel; the Sobel sum of a 3 x 3 kernel \<open>K\<close> over the
  neighbourhood of \<open>(x, y)\<close>, accumulated row by row; the magnitude
  \<open>sqrt (Gx\<^sup>2 + Gy\<^sup>2)\<close> of the two sums; the channel weights; and the weighted Euclidean
  distance of a pixel to the BackgroundColor (\<^verbatim>\<open>NaN\<close> when a channel of the
  BackgroundColor is).
\<close>

definition intensity :: "(real \<Rightarrow> real) \<Rightarrow> pixels \<Rightarrow> nat \<Rightarrow> nat \<Rightarrow> nat \<Rightarrow> real" where
  "intensity fl data w x y =
     fl (fl (fl (chanR data (y * w + x) + chanG data (y * w + x)) + chanB data (y * w + x)) / 3)"

definition neighbourhood :: "nat \<Rightarrow> nat \<Rightarrow> (nat \<times> nat) list" where
  "neighbourhood x y =
     [(x - 1, y - 1), (x, y - 1), (x + 1, y - 1),
      (x - 1, y),     (x, y),     (x + 1, y),
      (x - 1, y + 1), (x, y + 1), (x + 1, y + 1)]"

definition sobelSum ::
  "(real \<Rightarrow> real) \<Rightarrow> real list \<Rightarrow> pixels \<Rightarrow> nat \<Rightarrow> nat \<Rightarrow> nat \<Rightarrow> real" where
  "sobelSum fl K data w x y =
     foldl (\<lambda>acc (k, (nx, ny)). fl (acc + fl (intensity fl data w nx ny * k))) 0
       (zip K (neighbourhood x y))"

definition sobelMagnitude :: "(real \<Rightarrow> real) \<Rightarrow> pixels \<Rightarrow> nat \<Rightarrow> nat \<Rightarrow> nat \<Rightarrow> jsnum" where
  "sobelMagnitude fl data w x y =
     (let gx = sobelSum fl sobelX data w x y;
          gy = sobelSum fl sobelY data w x y
      in fsqrt fl (Some (fl (fl (gx * gx) + fl (gy * gy)))))"

definition weights :: "(real \<Rightarrow> real) \<Rightarrow> pixels \<Rightarrow> nat \<Rightarrow> real \<times> real \<times> real" where
  "weights fl data p =
     (if goldLike fl data p then (fl 0.2, fl 0.2, fl 0.6) else (fl 0.3, fl 0.59, fl 0.11))"

definition colorDistance :: "(real \<Rightarrow> real) \<Rightarrow> pixels \<Rightarrow> color \<Rightarrow> nat \<Rightarrow> jsnum" where
  "colorDistance fl data avgBg p =
     (case (r avgBg, g avgBg, b avgBg) of
        (Some ar, Some ag, Some ab) \<Rightarrow>
          (case weights fl data p of (wr, wg, wb) \<Rightarrow>
             let dr = fl (chanR data p - ar);
                 dg = fl (chanG data p - ag);
                 db = fl (chanB data p - ab)
             in fsqrt fl (Some (fl (fl (fl (fl (dr * dr) * wr) + fl (fl (dg * dg) * wg)) +
                                    fl (fl (db * db) * wb)))))
      | _ \<Rightarrow> None)"

text \<open>
  The same notions in exact arithmetic, as closed formulas: what the rounded ones are
  for \<open>fl = id\<close>.
\<close>

definition exactIntensity :: "pixels \<Rightarrow> nat \<Rightarrow> nat \<Rightarrow> nat \<Rightarrow> real" where
  "exactIntensity data w x y =
     (chanR data (y * w + x) + chanG data (y * w + x) + chanB data (y * w + x)) / 3"

definition sobelGx :: "pixels \<Rightarrow> nat \<Rightarrow> nat \<Rightarrow> nat \<Rightarrow> real" where
  "sobelGx data w x y =
     (exactIntensity data w (x + 1) (y - 1) + 2 * exactIntensity data w (x + 1) y + exactIntensity data w (x + 1) (y + 1)) -
     (exactIntensity data w (x - 1) (y - 1) + 2 * exactIntensity data w (x - 1) y + exactIntensity data w (x - 1) (y + 1))"

definition sobelGy :: "pixels \<Rightarrow> nat \<Rightarrow> nat \<Rightarrow> nat \<Rightarrow> real" where
  "sobelGy data w x y =
     (exactIntensity data w (x - 1) (y + 1) + 2 * exactIntensity data w x (y + 1) + exactIntensity data w (x + 1) (y + 1)) -
     (exactIntensity data w (x - 1) (y - 1) + 2 * exactIntensity data w x (y - 1) + exactIntensity data w (x + 1) (y - 1))"

definition exactSobelMagnitude :: "pixels \<Rightarrow> nat \<Rightarrow> nat \<Rightarrow> nat \<Rightarrow> real" where
  "exactSobelMagnitude data w x y = sqrt ((sobelGx data w x y)\<^sup>2 + (sobelGy data w x y)\<^sup>2)"

definition exactWeights :: "pixels \<Rightarrow> nat \<Rightarrow> real \<times> real \<times> real" where
  "exactWeights data p = (if goldLike id data p then (0.2, 0.2, 0.6) else (0.3, 0.59, 0.11))"

definition exactColorDistance :: "pixels \<Rightarrow> color \<Rightarrow> nat \<Rightarrow> jsnum" where
  "exactColorDistance data avgBg p =
     (case (r avgBg, g avgBg, b avgBg) of
        (Some ar, Some ag, Some ab) \<Rightarrow>
          (case exactWeights data p of (wr, wg, wb) \<Rightarrow>
             Some (sqrt (wr * (chanR data p - ar)\<^sup>2 + wg * (chanG data p - ag)\<^sup>2 +
                         wb * (chanB data p - ab)\<^sup>2)))
      | _ \<Rightarrow> None)"

text \<open>An image all of whose \<open>n\<close> pixels have the colour \<open>(cr, cg, cb)\<close>.\<close>

definition isUniform :: "pixels \<Rightarrow> nat \<Rightarrow> 8 word \<Rightarrow> 8 word \<Rightarrow> 8 word \<Rightarrow> bool" where
  "isUniform data n cr cg cb \<longleftrightarrow>
     list_all (\<lambda>p. data ! (4 * p) = cr \<and> data ! (4 * p + 1) = cg \<and> data ! (4 * p + 2) = cb) [0..<n]"

text \<open>
  A sample position \<open>(x, y)\<close> is read inside the buffer when its pixel index
  \<open>y * width + x\<close> is one of the \<open>width * height\<close> pixel indices.
\<close>

definition sampleInBounds :: "nat \<Rightarrow> nat \<Rightarrow> int \<times> int \<Rightarrow> bool" where
  "sampleInBounds w h c = (case c of (x, y) \<Rightarrow> 0 \<le> y * int w + x \<and> y * int w + x < int (w * h))"

text \<open>
  The flood fill as section 4.6 of the specification words it: the seeds are the ring
  pixels that are labeled background.
\<close>

inductive_set reachableFromBackgroundBorder :: "nat list \<Rightarrow> nat \<Rightarrow> nat \<Rightarrow> nat set" for msk w h where
  seed: "onBorder w h p \<Longrightarrow> msk ! p = 0 \<Longrightarrow> p \<in> reachableFromBackgroundBorder msk w h"
| grow: "p \<in> reachableFromBackgroundBorder msk w h \<Longrightarrow> adjacent4 w h p n \<Longrightarrow> msk ! n = 0
         \<Longrightarrow> n \<in> reachableFromBackgroundBorder msk w h"

text \<open>
  The labels of the pipeline in terms of colours and the threshold. The combined metric
  of section 4.4 at a pixel, for the BackgroundColor of the image; a pixel \<open>exceeds\<close>
  when it is interior and its combined metric is greater than the adaptive threshold; it
  is \<open>promoted\<close> when it is interior, has an 8-neighbour that exceeds, and is gold-like
  or has a channel further than half the threshold from the BackgroundColor; it is
  \<open>calm\<close> when it neither exceeds nor is promoted. \<open>ringConnected\<close> is the set of the
  ring pixels and of the pixels that a chain of 4-adjacent calm pixels joins to a ring
  pixel.
\<close>

definition combined :: "(real \<Rightarrow> real) \<Rightarrow> pixels \<Rightarrow> nat \<Rightarrow> nat \<Rightarrow> nat \<Rightarrow> jsnum" where
  "combined fl data w h p =
     fadd fl (colorDistance fl data (avgBackground fl data w h) p)
       (fmul fl (fdiv fl (nmin (Some 255) (sobelMagnitude fl data w (p mod w) (p div w))) (Some 255))
          (Some 80))"

definition exceeds :: "(real \<Rightarrow> real) \<Rightarrow> pixels \<Rightarrow> nat \<Rightarrow> nat \<Rightarrow> nat \<Rightarrow> bool" where
  "exceeds fl data w h p \<longleftrightarrow>
     isInterior w h p \<and> ngt (combined fl data w h p) (pipelineThreshold fl data w h)"

definition promoted :: "(real \<Rightarrow> real) \<Rightarrow> pixels \<Rightarrow> nat \<Rightarrow> nat \<Rightarrow> nat \<Rightarrow> bool" where
  "promoted fl data w h p \<longleftrightarrow>
     isInterior w h p \<and> (\<exists>n. adjacent8 w h p n \<and> exceeds fl data w h n) \<and>
     (goldLike fl data p \<or>
      deviates fl data (avgBackground fl data w h) (pipelineThreshold fl data w h) p)"

definition calm :: "(real \<Rightarrow> real) \<Rightarrow> pixels \<Rightarrow> nat \<Rightarrow> nat \<Rightarrow> nat \<Rightarrow> bool" where
  "calm fl data w h p \<longleftrightarrow> \<not> exceeds fl data w h p \<and> \<not> promoted fl data w h p"

inductive_set ringConnected :: "(real \<Rightarrow> real) \<Rightarrow> pixels \<Rightarrow> nat \<Rightarrow> nat \<Rightarrow> nat set"
  for fl data w h where
  ring: "onBorder w h p \<Longrightarrow> p \<in> ringConnected fl data w h"
| chain: "p \<in> ringConnected fl data w h \<Longrightarrow> adjacent4 w h p n \<Longrightarrow> calm fl data w h n
          \<Longrightarrow> n \<in> ringConnected fl data w h"

text \<open>The indices one pass over the direction list \<open>ds\<close> can push, for the pixel \<open>(x, y)\<close>.\<close>

definition newN :: "nat list \<Rightarrow> nat \<Rightarrow> nat \<Rightarrow> nat \<Rightarrow> nat \<Rightarrow> (int \<times> int) list \<Rightarrow> nat set" where
  "newN msk w h x y ds = {n. \<exists>(dx, dy) \<in> set ds.
      0 \<le> int x + dx \<and> int x + dx < int w \<and> 0 \<le> int y + dy \<and> int y + dy < int h \<and>
      n = nat ((int y + dy) * int w + (int x + dx)) \<and> msk ! n = 0}"


section \<open>Auxiliary functions of the proofs\<close>

text \<open>
  The sample \<^verbatim>\<open>addSample\<close> pushes for the position \<open>(x, y)\<close>, and the body of the
  \<^verbatim>\<open>forEach\<close> of \<^verbatim>\<open>calculateAverageColor\<close>.
\<close>

definition sampleAt :: "pixels \<Rightarrow> nat \<Rightarrow> int \<times> int \<Rightarrow> color" where
  "sampleAt data w c = (case c of (x, y) \<Rightarrow>
     \<lparr>r = get data ((y * int w + x) * 4), g = get data ((y * int w + x) * 4 + 1),
      b = get data ((y * int w + x) * 4 + 2)\<rparr>)"

definition sumStep ::
  "(real \<Rightarrow> real) \<Rightarrow> jsnum \<times> jsnum \<times> jsnum \<Rightarrow> color \<Rightarrow> jsnum \<times> jsnum \<times> jsnum" where
  "sumStep fl = (\<lambda>(rs, gs, bs) s. (fadd fl rs (r s), fadd fl gs (g s), fadd fl bs (b s)))"

section \<open>Concrete images\<close>

text \<open>
  A 4 x 3 image on a grey background whose two interior pixels are black and gold and
  whose top left corner is red, with the mask that labels only the black pixel
  foreground; and a 3 x 10 image of one colour.
\<close>

definition img43 :: pixels where
  "img43 = [255,0,0,255,     128,128,128,255, 128,128,128,255, 128,128,128,255,
            128,128,128,255, 0,0,0,255,       200,160,90,255,  128,128,128,255,
            128,128,128,255, 128,128,128,255, 128,128,128,255, 128,128,128,255]"

definition grey :: color where
  "grey = \<lparr>r = Some 128, g = Some 128, b = Some 128\<rparr>"

definition uni310 :: pixels where
  "uni310 = [50,60,70,255, 50,60,70,255, 50,60,70,255,
             50,60,70,255, 50,60,70,255, 50,60,70,255,
             50,60,70,255, 50,60,70,255, 50,60,70,255,
             50,60,70,255, 50,60,70,255, 50,60,70,255,
             50,60,70,255, 50,60,70,255, 50,60,70,255,
             50,60,70,255, 50,60,70,255, 50,60,70,255,
             50,60,70,255, 50,60,70,255, 50,60,70,255,
             50,60,70,255, 50,60,70,255, 50,60,70,255,
             50,60,70,255, 50,60,70,255, 50,60,70,255,
             50,60,70,255, 50,60,70,255, 50,60,70,255]"

text \<open>
  A 3 x 10 black image with three red pixels in its left column, rows 3 to 5. Its border
  band (thickness 10) is the whole image.
\<close>

definition cex310 :: pixels where
  "cex310 = [0,0,0,255,   0,0,0,255, 0,0,0,255,
             0,0,0,255,   0,0,0,255, 0,0,0,255,
             0,0,0,255,   0,0,0,255, 0,0,0,255,
             200,0,0,255, 0,0,0,255, 0,0,0,255,
             200,0,0,255, 0,0,0,255, 0,0,0,255,
             200,0,0,255, 0,0,0,255, 0,0,0,255,
             0,0,0,255,   0,0,0,255, 0,0,0,255,
             0,0,0,255,   0,0,0,255, 0,0,0,255,
             0,0,0,255,   0,0,0,255, 0,0,0,255,
             0,0,0,255,   0,0,0,255, 0,0,0,255]"

text \<open>A 3 x 3 white image with a red centre.\<close>

definition red33 :: pixels where
  "red33 = [255,255,255,255, 255,255,255,255, 255,255,255,255,
            255,255,255,255, 255,0,0,255,     255,255,255,255,
            255,255,255,255, 255,255,255,255, 255,255,255,255]"

definition msk43 :: "nat list" where
  "msk43 = [0,0,0,0, 0,1,0,0, 0,0,0,0]"

section \<open>Alpha Compositor\<close>

lemma applyMask_upt_length:
  "length (foldl (applyMaskStep msk) data [0..<n]) = length data"
  by (induction n) (simp_all add: applyMaskStep_def)

lemma applyMask_upt_nth:
  "j < length data \<Longrightarrow> foldl (applyMaskStep msk) data [0..<n] ! j =
     (if j mod 4 = 3 \<and> j div 4 < n \<and> j div 4 < length msk \<and> msk ! (j div 4) = 0 then 0 else data ! j)"
proof (induction n)
  case 0
  show ?case by simp
next
  case (Suc n)
  define F where "F = foldl (applyMaskStep msk) data [0..<n]"
  have len: "length F = length data" by (simp add: F_def applyMask_upt_length)
  have IH: "F ! j = (if j mod 4 = 3 \<and> j div 4 < n \<and> j div 4 < length msk \<and> msk ! (j div 4) = 0 then 0 else data ! j)"
    using Suc by (simp add: F_def)
  have step: "foldl (applyMaskStep msk) data [0..<Suc n] = applyMaskStep msk F n"
    by (simp add: F_def)
  have key: "j = n * 4 + 3 \<longleftrightarrow> j mod 4 = 3 \<and> j div 4 = n" by presburger
  show ?case
  proof (cases "n < length msk \<and> msk ! n = 0")
    case True
    then have "applyMaskStep msk F n ! j = (if j = n * 4 + 3 then 0 else F ! j)"
      using Suc.prems len by (simp add: applyMaskStep_def nth_list_update)
    then show ?thesis unfolding step IH key using True by (auto simp: less_Suc_eq)
  next
    case False
    then have "applyMaskStep msk F n ! j = F ! j"
      by (auto simp: applyMaskStep_def)
    then show ?thesis unfolding step IH using False by (auto simp: less_Suc_eq)
  qed
qed

lemma applyMask_length: "length (applyMask data msk) = length data"
  unfolding applyMask_def by (rule applyMask_upt_length)

lemma applyMask_nth:
  assumes "j < length data"
  shows "applyMask data msk ! j =
     (if j mod 4 = 3 \<and> j div 4 < length msk \<and> msk ! (j div 4) = 0 then 0 else data ! j)"
proof -
  have "j div 4 < (length data + 3) div 4" using assms by presburger
  then show ?thesis
    unfolding applyMask_def using applyMask_upt_nth[OF assms, of msk "(length data + 3) div 4"] by simp
qed


section \<open>Hole Filler: the flood fill computes reachability\<close>

lemma seeds_border:
  assumes "0 < w" "0 < h"
  shows "set (seeds w h) = {p. onBorder w h p}"
proof (intro set_eqI iffI)
  fix p assume "p \<in> set (seeds w h)"
  then consider x where "x < w" "p = x" | x where "x < w" "p = (h - 1) * w + x"
    | y where "1 \<le> y" "y < h - 1" "p = y * w" | y where "1 \<le> y" "y < h - 1" "p = y * w + w - 1"
    by (auto simp: seeds_def)
  then have "onBorder w h p"
  proof cases
    case 1
    with assms have "p < w * h" by (metis One_nat_def Suc_leI dual_order.strict_trans1 mult.right_neutral mult_le_mono2)
    with 1 show ?thesis by (simp add: onBorder_def)
  next
    case 2
    have "(h - 1) * w + x < (h - 1) * w + w" using 2 by simp
    also have "\<dots> = h * w" using assms by (simp add: algebra_simps)
    finally have "p < w * h" using 2 by (simp add: mult.commute)
    with 2 show ?thesis by (simp add: onBorder_def)
  next
    case 3
    have "y * w < h * w" using 3 assms by simp
    with 3 show ?thesis by (simp add: onBorder_def mult.commute)
  next
    case 4
    have "y * w + w - 1 < (y + 1) * w" using assms by simp
    also have "\<dots> \<le> h * w" using 4 by (intro mult_le_mono1) simp
    finally have lt: "p < w * h" using 4 by (simp add: mult.commute)
    have "y * w + w - 1 = (w - 1) + y * w" using assms by simp
    then have "p = (w - 1) + y * w" using 4 by simp
    then have "p mod w = (w - 1) mod w" by (simp only: mod_mult_self1)
    then have "p mod w = w - 1" using assms by simp
    with lt show ?thesis by (simp add: onBorder_def)
  qed
  then show "p \<in> {p. onBorder w h p}" by simp
next
  fix p assume "p \<in> {p. onBorder w h p}"
  then have b: "onBorder w h p" by simp
  then have lt: "p < w * h" by (simp add: onBorder_def)
  then have dlt: "p div w < h" using assms by (simp add: less_mult_imp_div_less mult.commute)
  have mlt: "p mod w < w" using assms by simp
  have pe: "p = (p div w) * w + p mod w" by simp
  from b have disj: "p mod w = 0 \<or> p mod w = w - 1 \<or> p div w = 0 \<or> p div w = h - 1"
    unfolding onBorder_def by blast
  consider (top) "p div w = 0" | (bot) "p div w = h - 1"
    | (mid) "p div w \<noteq> 0" "p div w \<noteq> h - 1" by blast
  then show "p \<in> set (seeds w h)"
  proof cases
    case top
    then have "p < w" using mlt pe by (metis add_0 mult_0)
    then show ?thesis by (auto simp: seeds_def)
  next
    case bot
    then have "p = (h - 1) * w + p mod w" using pe by simp
    with mlt show ?thesis unfolding seeds_def by (auto intro!: bexI[of _ "p mod w"])
  next
    case mid
    then have rng: "1 \<le> p div w" "p div w < h - 1" using dlt by linarith+
    from mid disj have "p mod w = 0 \<or> p mod w = w - 1" by argo
    then show ?thesis
    proof
      assume "p mod w = 0"
      then have "p = (p div w) * w" using pe by (metis add.right_neutral)
      with rng show ?thesis unfolding seeds_def by (auto intro!: bexI[of _ "p div w"])
    next
      assume "p mod w = w - 1"
      then have "p = (p div w) * w + (w - 1)" using pe by metis
      then have "p = (p div w) * w + w - 1" using assms by simp
      with rng show ?thesis unfolding seeds_def by (auto intro!: bexI[of _ "p div w"])
    qed
  qed
qed


lemma reachable_lt: "p \<in> reachable msk w h \<Longrightarrow> p < w * h"
  by (induction rule: reachable.induct) (auto simp: onBorder_def adjacent4_def)

lemma idx_div_mod:
  fixes x y w :: nat
  assumes "x < w"
  shows "(y * w + x) div w = y" "(y * w + x) mod w = x"
  using assms by simp_all

lemma idx_lt:
  fixes x y w h :: nat
  assumes "x < w" "y < h"
  shows "y * w + x < w * h"
proof -
  have "y * w + x < y * w + w" using assms by simp
  also have "\<dots> = (y + 1) * w" by simp
  also have "\<dots> \<le> h * w" using assms by (intro mult_le_mono1) simp
  finally show ?thesis by (simp add: mult.commute)
qed

lemma newN_Nil: "newN msk w h x y [] = {}"
  by (simp add: newN_def)

lemma newN_Cons: "newN msk w h x y (d # ds) = newN msk w h x y [d] \<union> newN msk w h x y ds"
  by (auto simp: newN_def)

lemma visitNeighbor_cases:
  obtains (same) "visitNeighbor msk w h x y (q, v, bg) d = (q, v, bg)" "newN msk w h x y [d] \<subseteq> v"
  | (push) n where "visitNeighbor msk w h x y (q, v, bg) d = (q @ [n], insert n v, insert n bg)"
      "newN msk w h x y [d] = {n}" "n \<notin> v"
proof -
  obtain dx dy where d: "d = (dx, dy)" by (cases d) auto
  define n where "n = nat ((int y + dy) * int w + (int x + dx))"
  show thesis
  proof (cases "0 \<le> int x + dx \<and> int x + dx < int w \<and> 0 \<le> int y + dy \<and> int y + dy < int h
                 \<and> n \<notin> v \<and> msk ! n = 0")
    case True
    then have "visitNeighbor msk w h x y (q, v, bg) d = (q @ [n], insert n v, insert n bg)"
      by (simp add: visitNeighbor_def d Let_def n_def)
    moreover have "newN msk w h x y [d] = {n}"
      using True by (auto simp: newN_def d n_def)
    ultimately show thesis using True push by blast
  next
    case False
    then have "visitNeighbor msk w h x y (q, v, bg) d = (q, v, bg)"
      by (auto simp: visitNeighbor_def d Let_def n_def)
    moreover have "newN msk w h x y [d] \<subseteq> v"
      using False by (auto simp: newN_def d n_def)
    ultimately show thesis using same by blast
  qed
qed

lemma foldl_visitNeighbor:
  "foldl (visitNeighbor msk w h x y) (q, v, bg) ds = (q', v', b') \<Longrightarrow>
     v' = v \<union> newN msk w h x y ds \<and> set q' = set q \<union> (newN msk w h x y ds - v) \<and>
     b' = bg \<union> (newN msk w h x y ds - v)"
proof (induction ds arbitrary: q v bg)
  case Nil
  then show ?case by (simp add: newN_Nil)
next
  case (Cons d ds)
  show ?case
  proof (cases rule: visitNeighbor_cases[of msk w h x y q v bg d])
    case same
    with Cons.prems have "foldl (visitNeighbor msk w h x y) (q, v, bg) ds = (q', v', b')" by simp
    from Cons.IH[OF this] same(2) show ?thesis
      by (subst (1 2 3) newN_Cons) blast
  next
    case (push n)
    with Cons.prems have
      "foldl (visitNeighbor msk w h x y) (q @ [n], insert n v, insert n bg) ds = (q', v', b')" by simp
    from Cons.IH[OF this] push(2,3) show ?thesis
      by (subst (1 2 3) newN_Cons) auto
  qed
qed

lemma dir_cases:
  "(dx, dy) \<in> set directions \<longleftrightarrow>
     (dx = -1 \<and> dy = 0) \<or> (dx = 1 \<and> dy = 0) \<or> (dx = 0 \<and> dy = -1) \<or> (dx = 0 \<and> dy = 1)"
  by (auto simp: directions_def)

lemma adj_arith:
  fixes X Y A B :: nat
  shows "((Y = B \<and> (X = A + 1 \<or> A = X + 1)) \<or> (X = A \<and> (Y = B + 1 \<or> B = Y + 1))) \<longleftrightarrow>
     (\<exists>dx dy. ((dx = -1 \<and> dy = 0) \<or> (dx = 1 \<and> dy = 0) \<or> (dx = 0 \<and> dy = -1) \<or> (dx = 0 \<and> dy = 1)) \<and>
        int A = int X + dx \<and> int B = int Y + dy)" (is "?L \<longleftrightarrow> ?R")
proof
  assume ?L
  then consider "Y = B" "X = A + 1" | "Y = B" "A = X + 1" | "X = A" "Y = B + 1" | "X = A" "B = Y + 1"
    by blast
  then show ?R
  proof cases
    case 1
    then have "int A = int X + (-1) \<and> int B = int Y + 0" by simp
    then show ?thesis by blast
  next
    case 2
    then have "int A = int X + 1 \<and> int B = int Y + 0" by simp
    then show ?thesis by blast
  next
    case 3
    then have "int A = int X + 0 \<and> int B = int Y + (-1)" by simp
    then show ?thesis by blast
  next
    case 4
    then have "int A = int X + 0 \<and> int B = int Y + 1" by simp
    then show ?thesis by blast
  qed
next
  assume ?R
  then obtain dx dy where d: "(dx = -1 \<and> dy = 0) \<or> (dx = 1 \<and> dy = 0) \<or> (dx = 0 \<and> dy = -1) \<or> (dx = 0 \<and> dy = 1)"
    and e: "int A = int X + dx" "int B = int Y + dy" by blast
  from d e show ?L by linarith
qed

lemma newN_directions:
  assumes "p < w * h"
  shows "newN msk w h (p mod w) (p div w) directions = {n. adjacent4 w h p n \<and> msk ! n = 0}"
proof -
  from assms have w: "0 < w" by (cases w) auto
  define X where "X = p mod w"
  define Y where "Y = p div w"
  have xlt: "X < w" using w by (simp add: X_def)
  have ylt: "Y < h" using assms w by (simp add: Y_def less_mult_imp_div_less mult.commute)
  have "newN msk w h X Y directions = {n. adjacent4 w h p n \<and> msk ! n = 0}"
  proof (intro set_eqI iffI)
    fix n assume "n \<in> newN msk w h X Y directions"
    then obtain dx dy where d: "(dx, dy) \<in> set directions"
      and bdx: "0 \<le> int X + dx" "int X + dx < int w"
      and bdy: "0 \<le> int Y + dy" "int Y + dy < int h"
      and n: "n = nat ((int Y + dy) * int w + (int X + dx))" and z: "msk ! n = 0"
      unfolding newN_def by blast
    define nx where "nx = nat (int X + dx)"
    define ny where "ny = nat (int Y + dy)"
    have inx: "int nx = int X + dx" and iny: "int ny = int Y + dy"
      using bdx bdy by (simp_all add: nx_def ny_def)
    have nxlt: "nx < w" and nylt: "ny < h" using bdx bdy inx iny by linarith+
    have "(int Y + dy) * int w + (int X + dx) = int (ny * w + nx)"
      using inx iny by simp
    then have "n = nat (int (ny * w + nx))" using n by (simp only:)
    then have n': "n = ny * w + nx" by (simp only: nat_int)
    have nd: "n div w = ny" and nm: "n mod w = nx"
      using idx_div_mod[OF nxlt, of ny] n' by simp_all
    have nlt: "n < w * h" using idx_lt[OF nxlt nylt] n' by simp
    have "(Y = ny \<and> (X = nx + 1 \<or> nx = X + 1)) \<or> (X = nx \<and> (Y = ny + 1 \<or> ny = Y + 1))"
      unfolding adj_arith using d inx iny unfolding dir_cases by blast
    then have "adjacent4 w h p n"
      using assms nlt unfolding adjacent4_def X_def Y_def nd nm by simp
    with z show "n \<in> {n. adjacent4 w h p n \<and> msk ! n = 0}" by simp
  next
    fix n assume "n \<in> {n. adjacent4 w h p n \<and> msk ! n = 0}"
    then have a: "adjacent4 w h p n" and z: "msk ! n = 0" by simp_all
    from a have nlt: "n < w * h" by (simp add: adjacent4_def)
    define nx where "nx = n mod w"
    define ny where "ny = n div w"
    have nxlt: "nx < w" using w by (simp add: nx_def)
    have nylt: "ny < h" using nlt w by (simp add: ny_def less_mult_imp_div_less mult.commute)
    have ne: "n = ny * w + nx" by (simp add: nx_def ny_def)
    from a have "(Y = ny \<and> (X = nx + 1 \<or> nx = X + 1)) \<or> (X = nx \<and> (Y = ny + 1 \<or> ny = Y + 1))"
      unfolding adjacent4_def X_def Y_def nx_def ny_def by blast
    then obtain dx dy where d: "(dx, dy) \<in> set directions"
      and ex: "int nx = int X + dx" and ey: "int ny = int Y + dy"
      unfolding adj_arith dir_cases by blast
    have "nat ((int Y + dy) * int w + (int X + dx)) = nat (int (ny * w + nx))"
      using ex ey by simp
    also have "\<dots> = n" unfolding ne[symmetric] by (simp only: nat_int)
    finally have "n = nat ((int Y + dy) * int w + (int X + dx))" by simp
    moreover have "0 \<le> int X + dx" "int X + dx < int w" "0 \<le> int Y + dy" "int Y + dy < int h"
      using ex ey nxlt nylt by linarith+
    ultimately show "n \<in> newN msk w h X Y directions"
      using d z unfolding newN_def by blast
  qed
  then show ?thesis by (simp add: X_def Y_def)
qed

lemma bfs_reachable:
  assumes "set q \<subseteq> v" "v \<subseteq> reachable msk w h" "{p. onBorder w h p} \<subseteq> v"
    "\<forall>p \<in> v - set q. \<forall>n. adjacent4 w h p n \<and> msk ! n = 0 \<longrightarrow> n \<in> v" "bg = v"
  shows "bfs msk w h (q, v, bg) = (reachable msk w h, reachable msk w h)"
  using assms
proof (induction msk w h "(q, v, bg)" arbitrary: q v bg rule: bfs.induct)
  case (1 msk w h visited isBackground)
  have "p \<in> visited" if "p \<in> reachable msk w h" for p
    using that
  proof (induction rule: reachable.induct)
    case (border p)
    then show ?case using "1.prems"(3) by blast
  next
    case (step p n)
    then show ?case using "1.prems"(4) by simp
  qed
  with "1.prems"(2) have "visited = reachable msk w h" by blast
  with "1.prems"(5) show ?case by simp
next
  case (2 msk w h pixel queue visited isBackground)
  obtain q' v' b' where f: "foldl (visitNeighbor msk w h (pixel mod w) (pixel div w))
          (queue, visited, isBackground) directions = (q', v', b')"
    by (metis prod_cases3)
  have pr: "pixel \<in> reachable msk w h" using "2.prems"(1,2) by auto
  then have plt: "pixel < w * h" by (rule reachable_lt)
  define N where "N = {n. adjacent4 w h pixel n \<and> msk ! n = 0}"
  from foldl_visitNeighbor[OF f] newN_directions[OF plt, of msk]
  have v': "v' = visited \<union> N" and q': "set q' = set queue \<union> (N - visited)"
    and b': "b' = isBackground \<union> (N - visited)"
    by (simp_all add: N_def)
  have "N \<subseteq> reachable msk w h"
    using pr by (auto simp: N_def intro: reachable.step)
  have "bfs msk w h (q', v', b') = (reachable msk w h, reachable msk w h)"
  proof (rule "2.hyps"[OF f])
    show "set q' \<subseteq> v'" using "2.prems"(1) v' q' by auto
    show "v' \<subseteq> reachable msk w h" using "2.prems"(2) v' \<open>N \<subseteq> reachable msk w h\<close> by auto
    show "{p. onBorder w h p} \<subseteq> v'" using "2.prems"(3) v' by auto
    show "b' = v'" using "2.prems"(5) v' b' by auto
    show "\<forall>p \<in> v' - set q'. \<forall>n. adjacent4 w h p n \<and> msk ! n = 0 \<longrightarrow> n \<in> v'"
    proof (intro ballI allI impI)
      fix p n assume p: "p \<in> v' - set q'" and a: "adjacent4 w h p n \<and> msk ! n = 0"
      from p v' q' have pv: "p \<in> visited" "p \<notin> set queue" by auto
      show "n \<in> v'"
      proof (cases "p = pixel")
        case True
        with a have "n \<in> N" by (simp add: N_def)
        then show ?thesis using v' by simp
      next
        case False
        with pv have "p \<in> visited - set (pixel # queue)" by simp
        with "2.prems"(4) a have "n \<in> visited" by blast
        then show ?thesis using v' by simp
      qed
    qed
  qed
  then show ?case using f by simp
qed



lemma bfs_seeds:
  assumes "0 < w" "0 < h"
  shows "bfs msk w h (seeds w h, set (seeds w h), set (seeds w h)) = (reachable msk w h, reachable msk w h)"
proof (rule bfs_reachable)
  show "set (seeds w h) \<subseteq> reachable msk w h"
    unfolding seeds_border[OF assms] by (auto intro: reachable.border)
  show "{p. onBorder w h p} \<subseteq> set (seeds w h)"
    unfolding seeds_border[OF assms] by simp
qed simp_all

lemma reachable_empty: "w * h = 0 \<Longrightarrow> reachable msk w h = {}"
  using reachable_lt[of _ msk w h] by fastforce

lemma floodFillHoles_length: "length (floodFillHoles msk w h) = length msk"
  by (simp add: floodFillHoles_def split_def)

lemma floodFillHoles_eq:
  assumes "length msk = w * h"
  shows "floodFillHoles msk w h =
     map (\<lambda>i. if msk ! i = 0 \<and> i \<notin> reachable msk w h then 1 else msk ! i) [0..<w * h]"
proof (cases "0 < w \<and> 0 < h")
  case True
  then show ?thesis
    by (simp add: floodFillHoles_def bfs_seeds assms)
next
  case False
  then have "w * h = 0" by auto
  with assms show ?thesis
    by (simp add: floodFillHoles_def split_def)
qed

lemma floodFillHoles_nth:
  assumes "length msk = w * h" "i < w * h"
  shows "floodFillHoles msk w h ! i = (if msk ! i = 0 \<and> i \<notin> reachable msk w h then 1 else msk ! i)"
  using assms by (simp add: floodFillHoles_eq)

lemma bfs_marks:
  "snd (bfs msk w h (seeds w h, set (seeds w h), set (seeds w h))) \<inter> {..<w * h} = reachable msk w h"
proof (cases "0 < w \<and> 0 < h")
  case True
  then show ?thesis
    using reachable_lt[of _ msk w h] by (auto simp: bfs_seeds)
next
  case False
  then have z: "w * h = 0" by auto
  have e: "{..<w * h} = ({} :: nat set)" by (simp only: z lessThan_0)
  show ?thesis unfolding e reachable_empty[OF z] by simp
qed

lemma reachable_floodFillHoles:
  assumes "length msk = w * h" "p \<in> reachable msk w h"
  shows "p \<in> reachable (floodFillHoles msk w h) w h"
  using assms(2)
proof (induction rule: reachable.induct)
  case (border p)
  then show ?case by (rule reachable.border)
next
  case (step p n)
  have nr: "n \<in> reachable msk w h" using step.hyps by (auto intro: reachable.step)
  then have "n < w * h" by (rule reachable_lt)
  then have "floodFillHoles msk w h ! n = 0"
    using nr step.hyps(3) by (simp add: floodFillHoles_nth[OF assms(1)])
  with step.IH step.hyps(2) show ?case by (rule reachable.step)
qed

lemma spec_reach_empty:
  "p \<in> reachableFromBackgroundBorder [1, 1, 1, 1, 0, 1, 1, 1, 1] 3 3 \<Longrightarrow> False"
proof (induction rule: reachableFromBackgroundBorder.induct)
  case (seed p)
  then have "p < 9" by (simp add: onBorder_def)
  then have "p \<in> {0, 1, 2, 3, 4, 5, 6, 7, 8}" by auto
  with seed show ?case by (auto simp: onBorder_def)
next
  case (grow p n)
  then show ?case by simp
qed


section \<open>Arithmetic on JavaScript numbers\<close>

lemma lift2_simps:
  "lift2 f (Some x) (Some y) = Some (f x y)" "lift2 f None c = None" "lift2 f a None = None"
  by (simp_all add: lift2_def split: option.splits)

lemma jsnum_simps:
  "nadd (Some x) (Some y) = Some (x + y)" "nadd None c = None" "nadd a None = None"
  "nsub (Some x) (Some y) = Some (x - y)" "nsub None c = None" "nsub a None = None"
  "nmul (Some x) (Some y) = Some (x * y)" "nmul None c = None" "nmul a None = None"
  "ndiv (Some x) (Some y) = Some (x / y)" "ndiv None c = None" "ndiv a None = None"
  "nmin (Some x) (Some y) = Some (min x y)" "nmin None c = None" "nmin a None = None"
  "nabs (Some x) = Some \<bar>x\<bar>" "nabs None = None"
  "nsqrt (Some x) = (if x < 0 then None else Some (sqrt x))" "nsqrt None = None"
  "ngt (Some x) (Some y) \<longleftrightarrow> y < x" "ngt None c = False" "ngt a None = False"
  by (simp_all add: nadd_def nsub_def nmul_def ndiv_def nmin_def nabs_def nsqrt_def ngt_def
      lift2_simps split: option.splits)

lemma fnum_simps:
  "fadd fl (Some x) (Some y) = Some (fl (x + y))" "fadd fl None c = None" "fadd fl a None = None"
  "fsub fl (Some x) (Some y) = Some (fl (x - y))" "fsub fl None c = None" "fsub fl a None = None"
  "fmul fl (Some x) (Some y) = Some (fl (x * y))" "fmul fl None c = None" "fmul fl a None = None"
  "fdiv fl (Some x) (Some y) = Some (fl (x / y))" "fdiv fl None c = None" "fdiv fl a None = None"
  "fsqrt fl (Some x) = (if x < 0 then None else Some (fl (sqrt x)))" "fsqrt fl None = None"
  by (simp_all add: fadd_def fsub_def fmul_def fdiv_def fsqrt_def jsnum_simps)

section \<open>Rounding\<close>

lemma roundHalfEven_int: "roundHalfEven (of_int k) = k"
  by (simp add: roundHalfEven_def)

lemma roundHalfEven_nonneg: "0 \<le> x \<Longrightarrow> 0 \<le> roundHalfEven x"
  by (simp add: roundHalfEven_def Let_def)

lemma roundHalfEven_error: "\<bar>of_int (roundHalfEven x) - x\<bar> \<le> 1 / 2"
proof -
  have f1: "of_int \<lfloor>x\<rfloor> \<le> x" and f2: "x < of_int \<lfloor>x\<rfloor> + 1" by linarith+
  show ?thesis
  proof (cases "x - of_int \<lfloor>x\<rfloor> < 1 / 2")
    case True
    then have "roundHalfEven x = \<lfloor>x\<rfloor>" by (simp add: roundHalfEven_def)
    then show ?thesis using f1 True by simp
  next
    case False
    show ?thesis
    proof (cases "1 / 2 < x - of_int \<lfloor>x\<rfloor>")
      case True
      then have "roundHalfEven x = \<lfloor>x\<rfloor> + 1" using False by (simp add: roundHalfEven_def)
      then show ?thesis using f2 True by simp
    next
      case half: False
      then have "roundHalfEven x = \<lfloor>x\<rfloor> \<or> roundHalfEven x = \<lfloor>x\<rfloor> + 1"
        using False by (simp add: roundHalfEven_def Let_def)
      then show ?thesis using f1 f2 half False by auto
    qed
  qed
qed

lemma binary64_zero: "binary64 0 = 0"
  by (simp add: binary64_def)

lemma binary64_nonneg: "0 \<le> x \<Longrightarrow> 0 \<le> binary64 x"
proof -
  assume x: "0 \<le> x"
  have "0 \<le> x / 2 powi e" for e :: int using x by simp
  then have "0 \<le> roundHalfEven (x / 2 powi e)" for e :: int by (rule roundHalfEven_nonneg)
  then show ?thesis by (simp add: binary64_def Let_def)
qed

lemma keepsSign_binary64: "keepsSign binary64"
  by (simp add: keepsSign_def binary64_zero binary64_nonneg)

lemma binary64_int:
  assumes "\<bar>z\<bar> < 2 ^ 53"
  shows "binary64 (of_int z) = of_int z"
proof (cases "z = 0")
  case True
  then show ?thesis by (simp add: binary64_def)
next
  case False
  define e where "e = max (\<lfloor>log 2 \<bar>of_int z :: real\<bar>\<rfloor> - 52) (- 1074)"
  have "\<bar>of_int z :: real\<bar> = of_int \<bar>z\<bar>" by simp
  also have "\<dots> < of_int (2 ^ 53)" using assms by (simp only: of_int_less_iff)
  finally have "\<bar>of_int z :: real\<bar> < 2 ^ 53" by simp
  then have "log 2 \<bar>of_int z :: real\<bar> < 53" using False
    by (subst log_less_iff) (simp_all add: powr_realpow)
  then have "\<lfloor>log 2 \<bar>of_int z :: real\<bar>\<rfloor> < 53" by (simp add: floor_less_iff)
  then have e0: "e \<le> 0" by (simp add: e_def)
  define k where "k = nat (- e)"
  have ek: "e = - int k" using e0 by (simp add: k_def)
  have p: "(2 :: real) powi e = 1 / 2 ^ k" by (simp add: ek power_int_minus divide_simps)
  have "of_int z / 2 powi e = (of_int (z * 2 ^ k) :: real)" by (simp add: p)
  then have "roundHalfEven (of_int z / 2 powi e) = z * 2 ^ k"
    by (simp only: roundHalfEven_int)
  then have "of_int (roundHalfEven (of_int z / 2 powi e)) * 2 powi e = (of_int z :: real)"
    by (simp add: p)
  then show ?thesis using False by (simp add: binary64_def Let_def e_def)
qed

lemma powi_floor_log:
  assumes "0 < y"
  shows "(2 :: real) powi \<lfloor>log 2 y\<rfloor> \<le> y"
proof -
  have "(2 :: real) powi \<lfloor>log 2 y\<rfloor> = 2 powr (of_int \<lfloor>log 2 y\<rfloor>)"
    by (simp add: powr_real_of_int')
  also have "\<dots> \<le> 2 powr (log 2 y)" by (intro powr_mono) simp_all
  also have "\<dots> = y" using assms by simp
  finally show ?thesis .
qed

lemma binary64_error: "\<bar>binary64 x - x\<bar> \<le> (\<bar>x\<bar> + 1) / 2 ^ 20"
proof (cases "x = 0")
  case True
  then show ?thesis by (simp add: binary64_def)
next
  case False
  define e where "e = max (\<lfloor>log 2 \<bar>x\<bar>\<rfloor> - 52) (- 1074)"
  define m where "m = x / 2 powi e"
  have pos: "(0 :: real) < 2 powi e" by simp
  have xm: "x = m * 2 powi e" by (simp add: m_def)
  have b: "binary64 x = of_int (roundHalfEven m) * 2 powi e"
    using False by (simp add: binary64_def Let_def e_def m_def)
  have "binary64 x - x = (of_int (roundHalfEven m) - m) * 2 powi e"
    unfolding b left_diff_distrib xm[symmetric] ..
  then have "\<bar>binary64 x - x\<bar> = \<bar>of_int (roundHalfEven m) - m\<bar> * 2 powi e"
    by (simp add: abs_mult)
  also have "\<dots> \<le> 1 / 2 * 2 powi e"
    by (intro mult_right_mono roundHalfEven_error) simp
  finally have err: "\<bar>binary64 x - x\<bar> \<le> 2 powi e / 2" by simp
  have "(2 :: real) powi e \<le> (\<bar>x\<bar> + 1) / 2 ^ 19"
  proof (cases "\<lfloor>log 2 \<bar>x\<bar>\<rfloor> - 52 \<le> - 1074")
    case True
    then have "e = - 1074" by (simp add: e_def)
    then have "(2 :: real) powi e = 1 / 2 ^ 1074" by (simp add: power_int_minus divide_simps)
    also have "\<dots> \<le> 1 / 2 ^ 19" by (intro divide_left_mono power_increasing) simp_all
    also have "\<dots> \<le> (\<bar>x\<bar> + 1) / 2 ^ 19" by (intro divide_right_mono) simp_all
    finally show ?thesis .
  next
    case False
    then have "e = \<lfloor>log 2 \<bar>x\<bar>\<rfloor> - 52" by (simp add: e_def)
    then have "(2 :: real) powi e = 2 powi \<lfloor>log 2 \<bar>x\<bar>\<rfloor> / 2 ^ 52"
      by (simp add: power_int_diff)
    also have "\<dots> \<le> \<bar>x\<bar> / 2 ^ 52"
      using \<open>x \<noteq> 0\<close> by (intro divide_right_mono powi_floor_log) simp_all
    also have "\<dots> \<le> \<bar>x\<bar> / 2 ^ 19" by (intro divide_left_mono power_increasing) simp_all
    also have "\<dots> \<le> (\<bar>x\<bar> + 1) / 2 ^ 19" by (intro divide_right_mono) simp_all
    finally show ?thesis .
  qed
  then have "2 powi e / 2 \<le> (\<bar>x\<bar> + 1) / 2 ^ 19 / 2" by (intro divide_right_mono) simp_all
  also have "\<dots> = (\<bar>x\<bar> + 1) / 2 ^ 20" by simp
  finally show ?thesis using err by linarith
qed

lemma accurate_binary64:
  assumes "N < 2 ^ 53"
  shows "accurate binary64 N"
proof -
  have "binary64 (of_int z) = of_int z" if "\<bar>z\<bar> \<le> int N" for z
  proof -
    have "int N < 2 ^ 53" using assms by (metis of_nat_less_iff of_nat_numeral of_nat_power)
    with that have "\<bar>z\<bar> < 2 ^ 53" by linarith
    then show ?thesis by (rule binary64_int)
  qed
  then show ?thesis
    unfolding accurate_def using binary64_zero binary64_nonneg binary64_error by blast
qed

lemma accurate_binary64_max: "accurate binary64 9007199254740991"
  by (rule accurate_binary64) simp

lemma accurate_id: "accurate id N"
  by (simp add: accurate_def)

lemma accurate_keepsSign: "accurate fl N \<Longrightarrow> keepsSign fl"
  by (simp add: accurate_def keepsSign_def)

lemma accurateD:
  assumes "accurate fl N"
  shows "fl 0 = 0" "0 \<le> x \<Longrightarrow> 0 \<le> fl x" "n \<le> N \<Longrightarrow> fl (real n) = real n"
    "n \<le> N \<Longrightarrow> fl (- real n) = - real n" "\<bar>fl x - x\<bar> \<le> (\<bar>x\<bar> + 1) / 2 ^ 20"
proof -
  have i: "fl (of_int z) = of_int z" if "\<bar>z\<bar> \<le> int N" for z
    using assms that by (simp add: accurate_def)
  show "fl 0 = 0" "0 \<le> x \<Longrightarrow> 0 \<le> fl x" "\<bar>fl x - x\<bar> \<le> (\<bar>x\<bar> + 1) / 2 ^ 20"
    using assms by (simp_all add: accurate_def)
  show "n \<le> N \<Longrightarrow> fl (real n) = real n" using i[of "int n"] by simp
  show "n \<le> N \<Longrightarrow> fl (- real n) = - real n" using i[of "- int n"] by simp
qed

lemma fl_small:
  assumes "accurate fl N" "0 \<le> x" "x \<le> c" "c \<le> 1"
  shows "0 \<le> fl x" "fl x \<le> c + 1 / 500000"
proof -
  show "0 \<le> fl x" using accurateD(2)[OF assms(1,2)] .
  have "\<bar>fl x - x\<bar> \<le> (\<bar>x\<bar> + 1) / 2 ^ 20" by (rule accurateD(5)[OF assms(1)])
  also have "\<dots> \<le> (1 + 1) / 2 ^ 20" using assms by (intro divide_right_mono) simp_all
  also have "\<dots> \<le> 1 / 500000" by simp
  finally show "fl x \<le> c + 1 / 500000" using assms(3) by linarith
qed

lemma fl_near:
  assumes "accurate fl N" "\<bar>x\<bar> \<le> 1000"
  shows "\<bar>fl x - x\<bar> \<le> 1 / 1000"
proof -
  have "\<bar>fl x - x\<bar> \<le> (\<bar>x\<bar> + 1) / 2 ^ 20" by (rule accurateD(5)[OF assms(1)])
  also have "\<dots> \<le> (1000 + 1) / 2 ^ 20" using assms(2) by (intro divide_right_mono) simp_all
  also have "\<dots> \<le> 1 / 1000" by simp
  finally show ?thesis .
qed

lemma fl_numeral:
  assumes "accurate fl N" "216000 \<le> N"
  shows "numeral k \<le> (216000 :: nat) \<Longrightarrow> fl (numeral k) = numeral k"
    and "numeral k \<le> (216000 :: nat) \<Longrightarrow> fl (- numeral k) = - numeral k"
    and "fl 1 = 1"
proof -
  show "fl (numeral k) = numeral k" if "numeral k \<le> (216000 :: nat)"
    using accurateD(3)[OF assms(1) le_trans[OF that assms(2)]] unfolding of_nat_numeral .
  show "fl (- numeral k) = - numeral k" if "numeral k \<le> (216000 :: nat)"
    using accurateD(4)[OF assms(1) le_trans[OF that assms(2)]] unfolding of_nat_numeral .
  have "(1 :: nat) \<le> N" using assms(2) by simp
  from accurateD(3)[OF assms(1) this] show "fl 1 = 1" by simp
qed

lemma abs_leD:
  fixes a c :: real
  shows "\<bar>a - c\<bar> \<le> e \<Longrightarrow> a \<le> c + e" "\<bar>a - c\<bar> \<le> e \<Longrightarrow> c - e \<le> a"
  by linarith+

lemma abs_leI:
  fixes a c :: real
  shows "a \<le> c + e \<Longrightarrow> c - e \<le> a \<Longrightarrow> \<bar>a - c\<bar> \<le> e"
  by linarith

lemma if_one: "(if P then 1 else 0) = (1 :: nat) \<Longrightarrow> P"
  by (cases P) simp_all

lemma binary64_numeral:
  "numeral k < (9007199254740992 :: int) \<Longrightarrow> binary64 (numeral k) = numeral k"
  "numeral k < (9007199254740992 :: int) \<Longrightarrow> binary64 (- numeral k) = - numeral k"
  "binary64 1 = 1"
  using binary64_int[of "numeral k"] binary64_int[of "- numeral k"] binary64_int[of 1] by simp_all

section \<open>Mask Refiner: the dilation pass, pixel by pixel\<close>

lemma get_pixel:
  assumes "length data = 4 * n" "p < n"
  shows "get data (int p * 4) = Some (chanR data p)"
    "get data (int p * 4 + 1) = Some (chanG data p)"
    "get data (int p * 4 + 2) = Some (chanB data p)"
proof -
  have "nat (int p * 4) = 4 * p" "nat (int p * 4 + 1) = 4 * p + 1" "nat (int p * 4 + 2) = 4 * p + 2"
    by simp_all
  moreover have "int p * 4 + 2 < int (length data)" using assms by simp
  ultimately show "get data (int p * 4) = Some (chanR data p)"
    "get data (int p * 4 + 1) = Some (chanG data p)"
    "get data (int p * 4 + 2) = Some (chanB data p)"
    by (simp_all add: get_def chanR_def chanG_def chanB_def)
qed

lemma isGoldLike_spec:
  assumes "length data = 4 * n" "p < n"
  shows "isGoldLike fl data (int p * 4) \<longleftrightarrow> goldLike fl data p"
  by (simp add: isGoldLike_def get_pixel[OF assms] goldLike_def jsnum_simps fnum_simps)

lemma promotable_spec:
  assumes "length data = 4 * n" "p < n"
  shows "promotable fl data avgBg threshold p \<longleftrightarrow> goldLike fl data p \<or> deviates fl data avgBg threshold p"
  by (simp add: promotable_def Let_def get_pixel[OF assms] isGoldLike_spec[OF assms] deviates_def)

lemma interior_iff: "(x, y) \<in> set (interior w h) \<longleftrightarrow> 1 \<le> x \<and> x < w - 1 \<and> 1 \<le> y \<and> y < h - 1"
  by (auto simp: interior_def image_iff)

lemma kernelOffsets_iff:
  "(kx, ky) \<in> set kernelOffsets \<longleftrightarrow> (kx = -1 \<or> kx = 0 \<or> kx = 1) \<and> (ky = -1 \<or> ky = 0 \<or> ky = 1)"
  by (auto simp: kernelOffsets_def)

lemma isInterior_iff:
  "isInterior w h p \<longleftrightarrow> (\<exists>(x, y) \<in> set (interior w h). y * w + x = p)"
proof
  assume i: "isInterior w h p"
  then have "(p mod w, p div w) \<in> set (interior w h)" by (simp add: isInterior_def interior_iff)
  moreover have "(p div w) * w + p mod w = p" by simp
  ultimately show "\<exists>(x, y) \<in> set (interior w h). y * w + x = p" by blast
next
  assume "\<exists>(x, y) \<in> set (interior w h). y * w + x = p"
  then obtain x y where xy: "1 \<le> x" "x < w - 1" "1 \<le> y" "y < h - 1" and p: "p = y * w + x"
    by (auto simp: interior_iff)
  have xw: "x < w" and yh: "y < h" using xy by simp_all
  show "isInterior w h p"
    using xy idx_div_mod[OF xw, of y] idx_lt[OF xw yh] by (simp add: isInterior_def p)
qed

lemma dilate_foldl_length:
  "length (foldl (dilateStep fl data w avgBg threshold msk) t order) = length t"
  by (induction order arbitrary: t) (auto simp: dilateStep_def Let_def)

lemma dilate_foldl_nth:
  "i < length t \<Longrightarrow> foldl (dilateStep fl data w avgBg threshold msk) t order ! i =
     (if \<exists>(x, y) \<in> set order. y * w + x = i \<and> msk ! i = 0 \<and> hasNeighbor msk w x y \<and>
           promotable fl data avgBg threshold i
      then 1 else t ! i)"
proof (induction order arbitrary: t)
  case Nil
  show ?case by simp
next
  case (Cons p order)
  obtain x y where p: "p = (x, y)" by (cases p) auto
  define t' where "t' = dilateStep fl data w avgBg threshold msk t p"
  have len: "length t' = length t" by (auto simp: t'_def dilateStep_def Let_def p)
  have t': "t' ! i = (if y * w + x = i \<and> msk ! i = 0 \<and> hasNeighbor msk w x y \<and>
           promotable fl data avgBg threshold i then 1 else t ! i)"
  proof (cases "y * w + x = i")
    case True
    then show ?thesis
      using Cons.prems by (auto simp: t'_def dilateStep_def Let_def p)
  next
    case False
    then show ?thesis
      using Cons.prems by (auto simp: t'_def dilateStep_def Let_def p)
  qed
  have "foldl (dilateStep fl data w avgBg threshold msk) t (p # order) ! i
      = foldl (dilateStep fl data w avgBg threshold msk) t' order ! i" by (simp add: t'_def)
  also have "\<dots> = (if \<exists>(x, y) \<in> set order. y * w + x = i \<and> msk ! i = 0 \<and> hasNeighbor msk w x y \<and>
           promotable fl data avgBg threshold i then 1 else t' ! i)"
    using Cons.IH[of t'] Cons.prems len by simp
  also have "\<dots> = (if \<exists>(x, y) \<in> set (p # order). y * w + x = i \<and> msk ! i = 0 \<and> hasNeighbor msk w x y \<and>
           promotable fl data avgBg threshold i then 1 else t ! i)"
    unfolding t' p by auto
  finally show ?case .
qed

lemma hasNeighbor_spec:
  assumes "1 \<le> x" "x < w - 1" "1 \<le> y" "y < h - 1" "msk ! (y * w + x) = 0"
  shows "hasNeighbor msk w x y \<longleftrightarrow> (\<exists>n. adjacent8 w h (y * w + x) n \<and> msk ! n = 1)"
proof -
  have xw: "x < w" and yh: "y < h" using assms by simp_all
  define p where "p = y * w + x"
  have pd: "p div w = y" and pm: "p mod w = x" using idx_div_mod[OF xw, of y] by (simp_all add: p_def)
  have plt: "p < w * h" using idx_lt[OF xw yh] by (simp add: p_def)
  have enc: "nat ((int y + ky) * int w + (int x + kx)) = nat (int y + ky) * w + nat (int x + kx)"
    if "(kx, ky) \<in> set kernelOffsets" for kx ky
  proof -
    have "0 \<le> int y + ky" "0 \<le> int x + kx" using that assms unfolding kernelOffsets_iff by linarith+
    then have "(int y + ky) * int w + (int x + kx) = int (nat (int y + ky) * w + nat (int x + kx))"
      by simp
    then show ?thesis by (simp only: nat_int)
  qed
  show ?thesis
  proof
    assume "hasNeighbor msk w x y"
    then obtain kx ky where k: "(kx, ky) \<in> set kernelOffsets"
      and one: "msk ! nat ((int y + ky) * int w + (int x + kx)) = 1"
      by (auto simp: hasNeighbor_def list_ex_iff)
    define nx where "nx = nat (int x + kx)"
    define ny where "ny = nat (int y + ky)"
    define n where "n = ny * w + nx"
    have one': "msk ! n = 1" using one enc[OF k] by (simp add: n_def nx_def ny_def)
    have bx: "nx \<le> x + 1" "x \<le> nx + 1" "nx < w" and bdy: "ny \<le> y + 1" "y \<le> ny + 1" "ny < h"
      using k assms unfolding kernelOffsets_iff nx_def ny_def by linarith+
    have nd: "n div w = ny" and nm: "n mod w = nx"
      using idx_div_mod[OF bx(3), of ny] by (simp_all add: n_def)
    have nlt: "n < w * h" using idx_lt[OF bx(3) bdy(3)] by (simp add: n_def)
    have "n \<noteq> p" using one' assms(5) by (auto simp: p_def)
    then have "adjacent8 w h p n"
      using plt nlt bx bdy by (simp add: adjacent8_def pd pm nd nm)
    with one' show "\<exists>n. adjacent8 w h (y * w + x) n \<and> msk ! n = 1"
      unfolding p_def by blast
  next
    assume "\<exists>n. adjacent8 w h (y * w + x) n \<and> msk ! n = 1"
    then obtain n where a: "adjacent8 w h p n" and one: "msk ! n = 1" unfolding p_def by blast
    define kx where "kx = int (n mod w) - int x"
    define ky where "ky = int (n div w) - int y"
    from a have "n mod w \<le> x + 1" "x \<le> n mod w + 1" "n div w \<le> y + 1" "y \<le> n div w + 1"
      unfolding adjacent8_def pd pm by simp_all
    then have k: "(kx, ky) \<in> set kernelOffsets"
      unfolding kernelOffsets_iff kx_def ky_def by linarith
    have "nat (int y + ky) * w + nat (int x + kx) = (n div w) * w + n mod w"
      by (simp add: kx_def ky_def)
    also have "\<dots> = n" by simp
    finally have "nat ((int y + ky) * int w + (int x + kx)) = n" using enc[OF k] by simp
    with one have "msk ! nat ((int y + ky) * int w + (int x + kx)) = 1" by simp
    with k show "hasNeighbor msk w x y"
      unfolding hasNeighbor_def list_ex_iff by blast
  qed
qed


lemma refineMask_length: "length (refineMask fl data w h avgBg threshold msk) = length msk"
  by (simp add: refineMask_def dilate_def dilate_foldl_length)

lemma dilate_nth:
  assumes "length msk = w * h" "i < w * h" "set order = set (interior w h)"
  shows "dilate fl data w avgBg threshold msk order ! i =
     (if isInterior w h i \<and> msk ! i = 0 \<and> hasNeighbor msk w (i mod w) (i div w) \<and>
         promotable fl data avgBg threshold i
      then 1 else msk ! i)"
proof -
  have "(\<exists>(x, y) \<in> set order. y * w + x = i \<and> msk ! i = 0 \<and> hasNeighbor msk w x y \<and>
           promotable fl data avgBg threshold i) \<longleftrightarrow>
        (isInterior w h i \<and> msk ! i = 0 \<and> hasNeighbor msk w (i mod w) (i div w) \<and>
         promotable fl data avgBg threshold i)" (is "?L \<longleftrightarrow> ?R")
  proof
    assume ?L
    then obtain x y where xy: "(x, y) \<in> set (interior w h)" and i: "y * w + x = i"
      and rest: "msk ! i = 0" "hasNeighbor msk w x y" "promotable fl data avgBg threshold i"
      using assms(3) by auto
    from xy have "x < w - 1" by (simp add: interior_iff)
    then have "x < w" by simp
    from idx_div_mod[OF this, of y] i have "i div w = y" "i mod w = x" by simp_all
    moreover have "isInterior w h i" unfolding isInterior_iff using xy i by blast
    ultimately show ?R using rest by simp
  next
    assume R: ?R
    then have "(i mod w, i div w) \<in> set order"
      using assms(3) by (simp add: isInterior_def interior_iff)
    moreover have "(i div w) * w + i mod w = i" by simp
    ultimately show ?L using R by blast
  qed
  then show ?thesis
    unfolding dilate_def using dilate_foldl_nth[of i msk fl data w avgBg threshold msk order] assms(1,2)
    by simp
qed

lemma dilate_order:
  assumes "length msk = w * h" "set order = set (interior w h)"
  shows "dilate fl data w avgBg threshold msk order = refineMask fl data w h avgBg threshold msk"
proof (rule nth_equalityI)
  show "length (dilate fl data w avgBg threshold msk order) = length (refineMask fl data w h avgBg threshold msk)"
    by (simp add: refineMask_def dilate_def dilate_foldl_length)
next
  fix i assume "i < length (dilate fl data w avgBg threshold msk order)"
  then have i: "i < w * h" using assms(1) by (simp add: dilate_def dilate_foldl_length)
  show "dilate fl data w avgBg threshold msk order ! i = refineMask fl data w h avgBg threshold msk ! i"
    unfolding refineMask_def dilate_nth[OF assms(1) i assms(2)] dilate_nth[OF assms(1) i refl] ..
qed

lemma refineMask_nth:
  assumes "length msk = w * h" "i < w * h"
  shows "refineMask fl data w h avgBg threshold msk ! i =
     (if isInterior w h i \<and> msk ! i = 0 \<and> hasNeighbor msk w (i mod w) (i div w) \<and>
         promotable fl data avgBg threshold i
      then 1 else msk ! i)"
  unfolding refineMask_def by (rule dilate_nth[OF assms refl])

lemma hasNeighbor_interior:
  assumes "isInterior w h i" "msk ! i = 0"
  shows "hasNeighbor msk w (i mod w) (i div w) \<longleftrightarrow> (\<exists>n. adjacent8 w h i n \<and> msk ! n = 1)"
proof -
  have e: "(i div w) * w + i mod w = i" by simp
  from assms have "1 \<le> i mod w" "i mod w < w - 1" "1 \<le> i div w" "i div w < h - 1"
    "msk ! ((i div w) * w + i mod w) = 0"
    by (simp_all add: isInterior_def)
  from hasNeighbor_spec[OF this] show ?thesis unfolding e .
qed

section \<open>Mask Builder: the maps and the mask, pixel by pixel\<close>

lemma colorDist_spec:
  assumes "length data = 4 * n" "y * w + x < n"
  shows "colorDist fl data w avgBg x y = colorDistance fl data avgBg (y * w + x)"
proof -
  define p where "p = y * w + x"
  have plt: "p < n" using assms(2) by (simp add: p_def)
  have gets: "get data (int (p * 4)) = Some (chanR data p)"
    "get data (int (p * 4) + 1) = Some (chanG data p)"
    "get data (int (p * 4) + 2) = Some (chanB data p)"
    using get_pixel[OF assms(1) plt] by simp_all
  have gl: "isGoldLike fl data (int (p * 4)) \<longleftrightarrow> goldLike fl data p"
    using isGoldLike_spec[OF assms(1) plt, of fl] by simp
  have "colorDist fl data w avgBg x y = colorDistance fl data avgBg p"
    unfolding colorDist_def Let_def p_def[symmetric] gets gl colorDistance_def weights_def
    by (cases "r avgBg"; cases "g avgBg"; cases "b avgBg"; cases "goldLike fl data p";
        simp add: fnum_simps)
  then show ?thesis by (simp add: p_def)
qed

lemma kernelOffsets_list:
  "kernelOffsets = [(-1, -1), (0, -1), (1, -1), (-1, 0), (0, 0), (1, 0), (-1, 1), (0, 1), (1, 1)]"
  by (simp add: kernelOffsets_def)

lemma get_neighbor:
  assumes "length data = 4 * (w * h)" "1 \<le> x" "x < w - 1" "1 \<le> y" "y < h - 1"
    and "(kx, ky) \<in> set kernelOffsets"
  shows "fdiv fl (fadd fl (fadd fl (get data (((int y + ky) * int w + (int x + kx)) * 4))
                                   (get data (((int y + ky) * int w + (int x + kx)) * 4 + 1)))
                          (get data (((int y + ky) * int w + (int x + kx)) * 4 + 2))) (Some 3)
         = Some (intensity fl data w (nat (int x + kx)) (nat (int y + ky)))"
proof -
  define nx where "nx = nat (int x + kx)"
  define ny where "ny = nat (int y + ky)"
  have b: "0 \<le> int x + kx" "0 \<le> int y + ky" "nx < w" "ny < h"
    using assms unfolding kernelOffsets_iff nx_def ny_def by linarith+
  have e: "(int y + ky) * int w + (int x + kx) = int (ny * w + nx)"
    using b by (simp add: nx_def ny_def)
  have lt: "ny * w + nx < w * h" by (rule idx_lt[OF b(3,4)])
  show ?thesis
    unfolding e nx_def[symmetric] ny_def[symmetric] get_pixel[OF assms(1) lt] fnum_simps
      intensity_def ..
qed

lemma gradStep_eval:
  assumes "length data = 4 * (w * h)" "1 \<le> x" "x < w - 1" "1 \<le> y" "y < h - 1"
    and "(kx, ky) \<in> set kernelOffsets"
  shows "gradStep fl data w x y (Some gx, Some gy) (kx, ky) =
     (Some (fl (gx + fl (intensity fl data w (nat (int x + kx)) (nat (int y + ky)) *
                         sobelX ! nat ((ky + 1) * 3 + (kx + 1))))),
      Some (fl (gy + fl (intensity fl data w (nat (int x + kx)) (nat (int y + ky)) *
                         sobelY ! nat ((ky + 1) * 3 + (kx + 1))))))"
  unfolding gradStep_def Let_def prod.case get_neighbor[OF assms] fnum_simps ..

lemma edgeMagnitude_spec:
  assumes "length data = 4 * (w * h)" "1 \<le> x" "x < w - 1" "1 \<le> y" "y < h - 1"
  shows "edgeMagnitude fl data w x y = sobelMagnitude fl data w x y"
proof -
  note ev = gradStep_eval[OF assms]
  have mem: "(-1, -1) \<in> set kernelOffsets" "(0, -1) \<in> set kernelOffsets" "(1, -1) \<in> set kernelOffsets"
    "(-1, 0) \<in> set kernelOffsets" "(0, 0) \<in> set kernelOffsets" "(1, 0) \<in> set kernelOffsets"
    "(-1, 1) \<in> set kernelOffsets" "(0, 1) \<in> set kernelOffsets" "(1, 1) \<in> set kernelOffsets"
    by (simp_all add: kernelOffsets_iff)
  have nats: "nat (int x + - 1) = x - 1" "nat (int x + 0) = x" "nat (int x + 1) = x + 1"
    "nat (int y + - 1) = y - 1" "nat (int y + 0) = y" "nat (int y + 1) = y + 1"
    "nat (int x - 1) = x - 1" "nat (int y - 1) = y - 1"
    using assms by simp_all
  have fold: "foldl (gradStep fl data w x y) (Some 0, Some 0) kernelOffsets =
      (Some (sobelSum fl sobelX data w x y), Some (sobelSum fl sobelY data w x y))"
    unfolding kernelOffsets_list
    by (simp add: ev[OF mem(1)] ev[OF mem(2)] ev[OF mem(3)] ev[OF mem(4)] ev[OF mem(5)]
          ev[OF mem(6)] ev[OF mem(7)] ev[OF mem(8)] ev[OF mem(9)] sobelX_def sobelY_def
          sobelSum_def neighbourhood_def nats)
  show ?thesis
    unfolding edgeMagnitude_def fold sobelMagnitude_def Let_def prod.case fnum_simps ..
qed

text \<open>For \<open>fl = id\<close> the rounded notions are the closed formulas of exact arithmetic.\<close>

lemma fnum_id:
  "fadd id a c = nadd a c" "fsub id a c = nsub a c" "fmul id a c = nmul a c"
  "fdiv id a c = ndiv a c" "fsqrt id a = nsqrt a"
  by (simp_all add: fadd_def fsub_def fmul_def fdiv_def fsqrt_def option.map_id)

lemma keepsSign_id: "keepsSign id"
  by (simp add: keepsSign_def)

lemma intensity_id: "intensity id data w x y = exactIntensity data w x y"
  by (simp add: intensity_def exactIntensity_def)

lemma sobelSum_id:
  "sobelSum id sobelX data w x y = sobelGx data w x y"
  "sobelSum id sobelY data w x y = sobelGy data w x y"
  by (simp_all add: sobelSum_def neighbourhood_def sobelX_def sobelY_def sobelGx_def sobelGy_def
      intensity_id)

lemma sobelMagnitude_id: "sobelMagnitude id data w x y = Some (exactSobelMagnitude data w x y)"
proof -
  have nn: "\<not> (a * a + c * c < 0)" for a c :: real
    by (simp add: not_less)
  show ?thesis
    by (simp add: sobelMagnitude_def sobelSum_id Let_def fnum_simps nn exactSobelMagnitude_def
        power2_eq_square)
qed

lemma weights_id: "weights id data p = exactWeights data p"
  by (simp add: weights_def exactWeights_def)

lemma colorDistance_id: "colorDistance id data avgBg p = exactColorDistance data avgBg p"
proof (cases "\<exists>ar ag ab. r avgBg = Some ar \<and> g avgBg = Some ag \<and> b avgBg = Some ab")
  case True
  then obtain ar ag ab where A: "r avgBg = Some ar" "g avgBg = Some ag" "b avgBg = Some ab"
    by blast
  obtain wr wg wb where W: "exactWeights data p = (wr, wg, wb)" by (metis prod_cases3)
  have pos: "0 \<le> wr" "0 \<le> wg" "0 \<le> wb"
    using W by (auto simp: exactWeights_def split: if_splits)
  define dr where "dr = chanR data p - ar"
  define dg where "dg = chanG data p - ag"
  define db where "db = chanB data p - ab"
  have "0 \<le> dr * dr * wr" "0 \<le> dg * dg * wg" "0 \<le> db * db * wb" using pos by simp_all
  then have nn: "\<not> (dr * dr * wr + dg * dg * wg + db * db * wb < 0)" by linarith
  have eq: "dr * dr * wr + dg * dg * wg + db * db * wb = wr * dr\<^sup>2 + wg * dg\<^sup>2 + wb * db\<^sup>2"
    by (simp add: power2_eq_square mult.commute)
  have "colorDistance id data avgBg p = Some (sqrt (dr * dr * wr + dg * dg * wg + db * db * wb))"
    using nn by (simp add: colorDistance_def A weights_id W Let_def fnum_simps dr_def dg_def db_def)
  moreover have "exactColorDistance data avgBg p = Some (sqrt (wr * dr\<^sup>2 + wg * dg\<^sup>2 + wb * db\<^sup>2))"
    unfolding exactColorDistance_def A W dr_def dg_def db_def by simp
  ultimately show ?thesis by (simp only: eq)
next
  case False
  then have N: "r avgBg = None \<or> g avgBg = None \<or> b avgBg = None" by auto
  then show ?thesis
    unfolding colorDistance_def exactColorDistance_def by (auto split: option.splits)
qed

lemma mapsStep_foldl:
  assumes "\<forall>(x, y) \<in> set ps. x < w" "i < length E0" "length C0 = length E0"
    and "foldl (mapsStep fl data w avgBg) (E0, C0) ps = (E, C)"
  shows "E ! i = (if (i mod w, i div w) \<in> set ps then edgeMagnitude fl data w (i mod w) (i div w) else E0 ! i) \<and>
         C ! i = (if (i mod w, i div w) \<in> set ps then colorDist fl data w avgBg (i mod w) (i div w) else C0 ! i)"
  using assms
proof (induction ps arbitrary: E0 C0)
  case Nil
  then show ?case by simp
next
  case (Cons p ps)
  obtain x y where p: "p = (x, y)" by (cases p) auto
  have xw: "x < w" using Cons.prems(1) p by simp
  define E1 where "E1 = E0[y * w + x := edgeMagnitude fl data w x y]"
  define C1 where "C1 = C0[y * w + x := colorDist fl data w avgBg x y]"
  have step: "mapsStep fl data w avgBg (E0, C0) p = (E1, C1)"
    by (simp add: mapsStep_def p Let_def E1_def C1_def)
  have f: "foldl (mapsStep fl data w avgBg) (E1, C1) ps = (E, C)"
    using Cons.prems(4) step by simp
  have IH: "E ! i = (if (i mod w, i div w) \<in> set ps then edgeMagnitude fl data w (i mod w) (i div w) else E1 ! i) \<and>
         C ! i = (if (i mod w, i div w) \<in> set ps then colorDist fl data w avgBg (i mod w) (i div w) else C1 ! i)"
  proof (rule Cons.IH[OF _ _ _ f])
    show "\<forall>(x, y) \<in> set ps. x < w" using Cons.prems(1) by simp
    show "i < length E1" using Cons.prems(2) by (simp add: E1_def)
    show "length C1 = length E1" using Cons.prems(3) by (simp add: E1_def C1_def)
  qed
  have key: "i = y * w + x \<longleftrightarrow> (i mod w, i div w) = (x, y)"
    using idx_div_mod[OF xw, of y] by (metis Pair_inject div_mult_mod_eq)
  have E1: "E1 ! i = (if (i mod w, i div w) = (x, y) then edgeMagnitude fl data w x y else E0 ! i)"
    using Cons.prems(2) key by (auto simp: E1_def nth_list_update)
  have C1: "C1 ! i = (if (i mod w, i div w) = (x, y) then colorDist fl data w avgBg x y else C0 ! i)"
    using Cons.prems(2,3) key by (auto simp: C1_def nth_list_update)
  show ?case
    unfolding p using IH E1 C1 by auto
qed

lemma interior_mod_div:
  assumes "i < w * h"
  shows "(i mod w, i div w) \<in> set (interior w h) \<longleftrightarrow> isInterior w h i"
  using assms by (simp add: interior_iff isInterior_def)

lemma buildMask_length: "length (buildMask fl data w h avgBg threshold) = w * h"
  by (simp add: buildMask_def split_def)

lemma buildMask_nth:
  assumes "i < w * h"
  shows "buildMask fl data w h avgBg threshold ! i =
     (if ngt (combinedMetric fl
                (if isInterior w h i then colorDist fl data w avgBg (i mod w) (i div w) else Some 0)
                (if isInterior w h i then edgeMagnitude fl data w (i mod w) (i div w) else Some 0))
             threshold
      then 1 else 0)"
proof -
  obtain E C where EC: "computeMaps fl data w h avgBg = (E, C)" by (cases "computeMaps fl data w h avgBg") auto
  have xs: "\<forall>(x, y) \<in> set (interior w h). x < w"
    by (auto simp: interior_def)
  have "E ! i = (if (i mod w, i div w) \<in> set (interior w h) then edgeMagnitude fl data w (i mod w) (i div w)
                 else replicate (w * h) (Some 0) ! i) \<and>
        C ! i = (if (i mod w, i div w) \<in> set (interior w h) then colorDist fl data w avgBg (i mod w) (i div w)
                 else replicate (w * h) (Some 0) ! i)"
    by (rule mapsStep_foldl[OF xs _ _ EC[unfolded computeMaps_def]]) (simp_all add: assms)
  then have "E ! i = (if isInterior w h i then edgeMagnitude fl data w (i mod w) (i div w) else Some 0)"
    "C ! i = (if isInterior w h i then colorDist fl data w avgBg (i mod w) (i div w) else Some 0)"
    using assms by (simp_all add: interior_mod_div)
  then show ?thesis
    using assms by (simp add: buildMask_def EC)
qed

lemma combinedMetric_Some:
  "combinedMetric id cd (Some e) = nadd cd (Some (min 255 e / 255 * 80))"
  by (simp add: combinedMetric_def Let_def jsnum_simps fnum_id)

lemma sqrt_sq: "0 \<le> a \<Longrightarrow> x = a\<^sup>2 \<Longrightarrow> sqrt x = a"
  by simp

lemma cd5: "exactColorDistance img43 grey (1 * 4 + 1) = Some 128"
proof -
  have "sqrt (3 / 10 * (0 - 128)\<^sup>2 + 59 / 100 * (0 - 128)\<^sup>2 + 11 / 100 * (0 - 128)\<^sup>2) = (128 :: real)"
    by (rule sqrt_sq) simp_all
  then show ?thesis
    by (simp add: exactColorDistance_def grey_def exactWeights_def goldLike_def chanR_def chanG_def chanB_def
        img43_def)
qed

lemma buildMask_interior:
  assumes "length data = 4 * (w * h)" "1 \<le> x" "x < w - 1" "1 \<le> y" "y < h - 1"
  shows "buildMask fl data w h avgBg threshold ! (y * w + x) =
     (if ngt (combinedMetric fl (colorDistance fl data avgBg (y * w + x))
                (sobelMagnitude fl data w x y))
             threshold
      then 1 else 0)"
proof -
  have xw: "x < w" and yh: "y < h" using assms by simp_all
  define p where "p = y * w + x"
  have plt: "p < w * h" using idx_lt[OF xw yh] by (simp add: p_def)
  have dm: "p mod w = x" "p div w = y" using idx_div_mod[OF xw, of y] by (simp_all add: p_def)
  have int: "isInterior w h p" using assms plt by (simp add: isInterior_def dm)
  have cd: "colorDist fl data w avgBg x y = colorDistance fl data avgBg p"
    using colorDist_spec[OF assms(1), of y w x] plt by (simp add: p_def)
  show ?thesis
    unfolding p_def[symmetric] buildMask_nth[OF plt] dm
    by (simp add: int cd edgeMagnitude_spec[OF assms])
qed

lemma buildMask_interior_exact:
  assumes "length data = 4 * (w * h)" "1 \<le> x" "x < w - 1" "1 \<le> y" "y < h - 1"
  shows "buildMask id data w h avgBg threshold ! (y * w + x) =
     (if ngt (nadd (exactColorDistance data avgBg (y * w + x))
                   (Some (min 255 (exactSobelMagnitude data w x y) / 255 * 80)))
             threshold
      then 1 else 0)"
  unfolding buildMask_interior[OF assms] colorDistance_id sobelMagnitude_id combinedMetric_Some ..

section \<open>Accuracy of the rounded Sobel sums and of the combined metric\<close>

text \<open>
  For an accurate rounding the two rounded Sobel sums are within \<open>7 / 100\<close> of the
  exact ones, which bounds the edge term from above where the exact sums are \<open>0\<close> and
  from below where they are large.
\<close>

lemma chan_byte:
  "chanR data p = real (unat (data ! (4 * p)))" "unat (data ! (4 * p)) \<le> 255"
  "chanG data p = real (unat (data ! (4 * p + 1)))" "unat (data ! (4 * p + 1)) \<le> 255"
  "chanB data p = real (unat (data ! (4 * p + 2)))" "unat (data ! (4 * p + 2)) \<le> 255"
proof -
  have "unat v \<le> 255" for v :: "8 word" using unsigned_less[of v, where 'a = nat] by simp
  then show "unat (data ! (4 * p)) \<le> 255" "unat (data ! (4 * p + 1)) \<le> 255"
    "unat (data ! (4 * p + 2)) \<le> 255" by blast+
qed (simp_all add: chanR_def chanG_def chanB_def)

lemma intensity_accurate:
  assumes "accurate fl N" "765 \<le> N"
  shows "intensity fl data w x y = fl (exactIntensity data w x y)"
    and "0 \<le> intensity fl data w x y" and "intensity fl data w x y \<le> 256"
    and "\<bar>intensity fl data w x y - exactIntensity data w x y\<bar> \<le> 1 / 2000"
proof -
  define p where "p = y * w + x"
  define a where "a = unat (data ! (4 * p))"
  define c where "c = unat (data ! (4 * p + 1))"
  define d where "d = unat (data ! (4 * p + 2))"
  have ch: "chanR data p = real a" "chanG data p = real c" "chanB data p = real d"
    and le: "a \<le> 255" "c \<le> 255" "d \<le> 255"
    unfolding a_def c_def d_def by (rule chan_byte)+
  have 1: "fl (real a + real c) = real a + real c"
    using accurateD(3)[OF assms(1), of "a + c"] le assms(2) by simp
  have 2: "fl (real a + real c + real d) = real a + real c + real d"
    using accurateD(3)[OF assms(1), of "a + c + d"] le assms(2) by simp
  show e: "intensity fl data w x y = fl (exactIntensity data w x y)"
    unfolding intensity_def exactIntensity_def p_def[symmetric] ch 1 2 ..
  have z: "0 \<le> exactIntensity data w x y" "exactIntensity data w x y \<le> 255"
    unfolding exactIntensity_def p_def[symmetric] ch using le by simp_all
  show "0 \<le> intensity fl data w x y" unfolding e by (rule accurateD(2)[OF assms(1) z(1)])
  have "\<bar>fl (exactIntensity data w x y) - exactIntensity data w x y\<bar>
      \<le> (\<bar>exactIntensity data w x y\<bar> + 1) / 2 ^ 20"
    by (rule accurateD(5)[OF assms(1)])
  also have "\<dots> \<le> (255 + 1) / 2 ^ 20" using z by (intro divide_right_mono) simp_all
  also have "\<dots> \<le> 1 / 2000" by simp
  finally show err: "\<bar>intensity fl data w x y - exactIntensity data w x y\<bar> \<le> 1 / 2000"
    unfolding e .
  then show "intensity fl data w x y \<le> 256" using z by linarith
qed

lemma sobelSum_map:
  "sobelSum fl K data w x y =
     foldl (\<lambda>acc (k, i). fl (acc + fl (i * k))) 0
       (zip K (map (\<lambda>(nx, ny). intensity fl data w nx ny) (neighbourhood x y)))"
  unfolding sobelSum_def zip_map2 foldl_map
  by (rule arg_cong[where f = "\<lambda>f. foldl f 0 (zip K (neighbourhood x y))"]) (auto simp: fun_eq_iff)

lemma sobel_fold_bound:
  assumes "accurate fl N"
    and "\<forall>(k, i) \<in> set KI. \<bar>k\<bar> \<le> 2 \<and> \<bar>i\<bar> \<le> 256"
    and "j + length KI \<le> 9" "\<bar>acc - t\<bar> \<le> real j * (7 / 1000)" "\<bar>t\<bar> \<le> real j * 512"
  shows "\<bar>foldl (\<lambda>acc (k, i). fl (acc + fl (i * k))) acc KI - (t + (\<Sum>(k, i) \<leftarrow> KI. i * k))\<bar>
           \<le> real (j + length KI) * (7 / 1000)"
  using assms(2-)
proof (induction KI arbitrary: acc t j)
  case Nil
  then show ?case by simp
next
  case (Cons ki KI)
  obtain k i where ki: "ki = (k, i)" by (cases ki) auto
  have b: "\<bar>k\<bar> \<le> 2" "\<bar>i\<bar> \<le> 256" using Cons.prems(1) by (simp_all add: ki)
  have j: "j \<le> 8" using Cons.prems(2) by simp
  then have rj: "real j \<le> 8" by simp
  have ik: "\<bar>i * k\<bar> \<le> 512"
  proof -
    have "\<bar>i\<bar> * \<bar>k\<bar> \<le> 256 * 2" using b by (intro mult_mono) simp_all
    then show ?thesis by (simp add: abs_mult)
  qed
  define v where "v = fl (i * k)"
  have "\<bar>v - i * k\<bar> \<le> (\<bar>i * k\<bar> + 1) / 2 ^ 20" unfolding v_def by (rule accurateD(5)[OF assms(1)])
  also have "\<dots> \<le> (512 + 1) / 2 ^ 20" using ik by (intro divide_right_mono) simp_all
  also have "\<dots> \<le> 1 / 2000" by simp
  finally have ev: "\<bar>v - i * k\<bar> \<le> 1 / 2000" .
  have acct: "\<bar>acc\<bar> \<le> 8 * 513"
  proof -
    have "\<bar>acc\<bar> \<le> \<bar>t\<bar> + \<bar>acc - t\<bar>" by linarith
    also have "\<dots> \<le> real j * 512 + real j * (7 / 1000)" using Cons.prems(3,4) by linarith
    also have "\<dots> = real j * (512 + 7 / 1000)" by (simp add: algebra_simps)
    also have "\<dots> \<le> 8 * (512 + 7 / 1000)" using rj by (intro mult_right_mono) simp_all
    finally show ?thesis by simp
  qed
  define s where "s = acc + v"
  have sb: "\<bar>s\<bar> \<le> 5000" unfolding s_def using acct ev ik by linarith
  have "\<bar>fl s - s\<bar> \<le> (\<bar>s\<bar> + 1) / 2 ^ 20" by (rule accurateD(5)[OF assms(1)])
  also have "\<dots> \<le> (5000 + 1) / 2 ^ 20" using sb by (intro divide_right_mono) simp_all
  also have "\<dots> \<le> 6 / 1000" by simp
  finally have es: "\<bar>fl s - s\<bar> \<le> 6 / 1000" .
  define acc' where "acc' = fl s"
  define t' where "t' = t + i * k"
  have 1: "\<bar>acc' - t'\<bar> \<le> real (Suc j) * (7 / 1000)"
  proof -
    have "\<bar>acc' - t'\<bar> \<le> \<bar>acc - t\<bar> + \<bar>v - i * k\<bar> + \<bar>fl s - s\<bar>"
      unfolding acc'_def t'_def s_def by linarith
    also have "\<dots> \<le> real j * (7 / 1000) + 1 / 2000 + 6 / 1000" using Cons.prems(3) ev es by linarith
    also have "\<dots> \<le> real (Suc j) * (7 / 1000)" by (simp add: algebra_simps)
    finally show ?thesis .
  qed
  have 2: "\<bar>t'\<bar> \<le> real (Suc j) * 512"
  proof -
    have "\<bar>t'\<bar> \<le> \<bar>t\<bar> + \<bar>i * k\<bar>" unfolding t'_def by linarith
    also have "\<dots> \<le> real j * 512 + 512" using Cons.prems(4) ik by linarith
    finally show ?thesis by (simp add: algebra_simps)
  qed
  have 3: "Suc j + length KI \<le> 9" using Cons.prems(2) by simp
  have 4: "\<forall>(k, i) \<in> set KI. \<bar>k\<bar> \<le> 2 \<and> \<bar>i\<bar> \<le> 256" using Cons.prems(1) by simp
  have f: "foldl (\<lambda>acc (k, i). fl (acc + fl (i * k))) acc (ki # KI) =
      foldl (\<lambda>acc (k, i). fl (acc + fl (i * k))) acc' KI"
    by (simp add: ki acc'_def s_def v_def)
  have g: "t + (\<Sum>(k, i) \<leftarrow> ki # KI. i * k) = t' + (\<Sum>(k, i) \<leftarrow> KI. i * k)"
    by (simp add: ki t'_def)
  have h: "j + length (ki # KI) = Suc j + length KI" by simp
  show ?case
    unfolding f g h by (rule Cons.IH[OF 4 3 1 2])
qed

lemma sobelSum_bound:
  assumes "accurate fl N" "765 \<le> N" "\<forall>k \<in> set K. \<bar>k\<bar> \<le> 2"
  shows "\<bar>sobelSum fl K data w x y -
          (\<Sum>(k, i) \<leftarrow> zip K (map (\<lambda>(nx, ny). intensity fl data w nx ny) (neighbourhood x y)). i * k)\<bar>
           \<le> 63 / 1000"
proof -
  define KI where "KI = zip K (map (\<lambda>(nx, ny). intensity fl data w nx ny) (neighbourhood x y))"
  have len: "length KI \<le> 9" by (simp add: KI_def neighbourhood_def)
  have b: "\<forall>(k, i) \<in> set KI. \<bar>k\<bar> \<le> 2 \<and> \<bar>i\<bar> \<le> 256"
  proof -
    have "\<bar>k\<bar> \<le> 2 \<and> \<bar>i\<bar> \<le> 256" if "(k, i) \<in> set KI" for k i
    proof -
      have "k \<in> set K" using that unfolding KI_def by (rule set_zip_leftD)
      moreover have "i \<in> set (map (\<lambda>(nx, ny). intensity fl data w nx ny) (neighbourhood x y))"
        using that unfolding KI_def by (rule set_zip_rightD)
      then obtain nx ny where "i = intensity fl data w nx ny" by auto
      then have "\<bar>i\<bar> \<le> 256"
        using intensity_accurate(2,3)[OF assms(1,2), of data w nx ny] by simp
      ultimately show ?thesis using assms(3) by blast
    qed
    then show ?thesis by blast
  qed
  have "\<bar>foldl (\<lambda>acc (k, i). fl (acc + fl (i * k))) 0 KI - (0 + (\<Sum>(k, i) \<leftarrow> KI. i * k))\<bar>
           \<le> real (0 + length KI) * (7 / 1000)"
    by (rule sobel_fold_bound[OF assms(1) b]) (use len in simp_all)
  also have "\<dots> \<le> 9 * (7 / 1000)" using len by simp
  finally show ?thesis
    unfolding sobelSum_map KI_def[symmetric] by simp
qed

lemma sobelSum_exact:
  assumes "accurate fl N" "765 \<le> N"
  shows "\<bar>sobelSum fl sobelX data w x y - sobelGx data w x y\<bar> \<le> 7 / 100"
    and "\<bar>sobelSum fl sobelY data w x y - sobelGy data w x y\<bar> \<le> 7 / 100"
proof -
  note e = intensity_accurate(4)[OF assms, of data w]
  note u = abs_leD(1)[OF e] and l = abs_leD(2)[OF e]
  have kx: "\<forall>k \<in> set sobelX. \<bar>k\<bar> \<le> 2" and ky: "\<forall>k \<in> set sobelY. \<bar>k\<bar> \<le> 2"
    by (simp_all add: sobelX_def sobelY_def)
  have sx: "(\<Sum>(k, i) \<leftarrow> zip sobelX (map (\<lambda>(nx, ny). intensity fl data w nx ny) (neighbourhood x y)). i * k) =
      (intensity fl data w (x + 1) (y - 1) + 2 * intensity fl data w (x + 1) y + intensity fl data w (x + 1) (y + 1)) -
      (intensity fl data w (x - 1) (y - 1) + 2 * intensity fl data w (x - 1) y + intensity fl data w (x - 1) (y + 1))"
    by (simp add: sobelX_def neighbourhood_def)
  have sy: "(\<Sum>(k, i) \<leftarrow> zip sobelY (map (\<lambda>(nx, ny). intensity fl data w nx ny) (neighbourhood x y)). i * k) =
      (intensity fl data w (x - 1) (y + 1) + 2 * intensity fl data w x (y + 1) + intensity fl data w (x + 1) (y + 1)) -
      (intensity fl data w (x - 1) (y - 1) + 2 * intensity fl data w x (y - 1) + intensity fl data w (x + 1) (y - 1))"
    by (simp add: sobelY_def neighbourhood_def)
  note bx = sobelSum_bound[OF assms kx, of data w x y, unfolded sx]
  note by' = sobelSum_bound[OF assms ky, of data w x y, unfolded sy]
  show "\<bar>sobelSum fl sobelX data w x y - sobelGx data w x y\<bar> \<le> 7 / 100"
    unfolding sobelGx_def
  proof (rule abs_leI)
    show "sobelSum fl sobelX data w x y
      \<le> exactIntensity data w (x + 1) (y - 1) + 2 * exactIntensity data w (x + 1) y +
         exactIntensity data w (x + 1) (y + 1) -
         (exactIntensity data w (x - 1) (y - 1) + 2 * exactIntensity data w (x - 1) y +
          exactIntensity data w (x - 1) (y + 1)) + 7 / 100"
      using abs_leD(1)[OF bx]
        u[of "x + 1" "y - 1"] u[of "x + 1" y] u[of "x + 1" "y + 1"]
        l[of "x - 1" "y - 1"] l[of "x - 1" y] l[of "x - 1" "y + 1"]
      by linarith
    show "exactIntensity data w (x + 1) (y - 1) + 2 * exactIntensity data w (x + 1) y +
         exactIntensity data w (x + 1) (y + 1) -
         (exactIntensity data w (x - 1) (y - 1) + 2 * exactIntensity data w (x - 1) y +
          exactIntensity data w (x - 1) (y + 1)) - 7 / 100
      \<le> sobelSum fl sobelX data w x y"
      using abs_leD(2)[OF bx]
        l[of "x + 1" "y - 1"] l[of "x + 1" y] l[of "x + 1" "y + 1"]
        u[of "x - 1" "y - 1"] u[of "x - 1" y] u[of "x - 1" "y + 1"]
      by linarith
  qed
  show "\<bar>sobelSum fl sobelY data w x y - sobelGy data w x y\<bar> \<le> 7 / 100"
    unfolding sobelGy_def
  proof (rule abs_leI)
    show "sobelSum fl sobelY data w x y
      \<le> exactIntensity data w (x - 1) (y + 1) + 2 * exactIntensity data w x (y + 1) +
         exactIntensity data w (x + 1) (y + 1) -
         (exactIntensity data w (x - 1) (y - 1) + 2 * exactIntensity data w x (y - 1) +
          exactIntensity data w (x + 1) (y - 1)) + 7 / 100"
      using abs_leD(1)[OF by']
        u[of "x - 1" "y + 1"] u[of x "y + 1"] u[of "x + 1" "y + 1"]
        l[of "x - 1" "y - 1"] l[of x "y - 1"] l[of "x + 1" "y - 1"]
      by linarith
    show "exactIntensity data w (x - 1) (y + 1) + 2 * exactIntensity data w x (y + 1) +
         exactIntensity data w (x + 1) (y + 1) -
         (exactIntensity data w (x - 1) (y - 1) + 2 * exactIntensity data w x (y - 1) +
          exactIntensity data w (x + 1) (y - 1)) - 7 / 100
      \<le> sobelSum fl sobelY data w x y"
      using abs_leD(2)[OF by']
        l[of "x - 1" "y + 1"] l[of x "y + 1"] l[of "x + 1" "y + 1"]
        u[of "x - 1" "y - 1"] u[of x "y - 1"] u[of "x + 1" "y - 1"]
      by linarith
  qed
qed

lemma magnitude_small:
  assumes "accurate fl N" "\<bar>gx\<bar> \<le> 7 / 100" "\<bar>gy\<bar> \<le> 7 / 100"
  shows "\<exists>E. fsqrt fl (Some (fl (fl (gx * gx) + fl (gy * gy)))) = Some E \<and> 0 \<le> E \<and> E \<le> 1 / 5"
proof -
  have sq: "0 \<le> v * v \<and> v * v \<le> 1 / 200" if "\<bar>v\<bar> \<le> 7 / 100" for v :: real
  proof -
    have "\<bar>v\<bar> * \<bar>v\<bar> \<le> 7 / 100 * (7 / 100)" using that by (intro mult_mono) simp_all
    then show ?thesis by (simp add: abs_mult_self_eq flip: abs_mult)
  qed
  note x = fl_small[OF assms(1) sq[OF assms(2), THEN conjunct1] sq[OF assms(2), THEN conjunct2]]
  note y = fl_small[OF assms(1) sq[OF assms(3), THEN conjunct1] sq[OF assms(3), THEN conjunct2]]
  have s0: "0 \<le> fl (gx * gx) + fl (gy * gy)" using x(1) y(1) by simp
  have s1: "fl (gx * gx) + fl (gy * gy) \<le> 11 / 1000" using x(2) y(2) by simp
  have t: "0 \<le> fl (fl (gx * gx) + fl (gy * gy))" "fl (fl (gx * gx) + fl (gy * gy)) \<le> 11 / 1000 + 1 / 500000"
    by (rule fl_small[OF assms(1) s0 s1], simp)+
  define q where "q = fl (fl (gx * gx) + fl (gy * gy))"
  have q: "0 \<le> q" "q \<le> (11 / 100)\<^sup>2" using t by (simp_all add: q_def power2_eq_square)
  have r0: "0 \<le> sqrt q" using q(1) by simp
  have r1: "sqrt q \<le> 11 / 100" by (rule real_le_lsqrt) (use q in simp_all)
  have "0 \<le> fl (sqrt q)" "fl (sqrt q) \<le> 11 / 100 + 1 / 500000"
    by (rule fl_small[OF assms(1) r0 r1], simp)+
  then have "fsqrt fl (Some q) = Some (fl (sqrt q)) \<and> 0 \<le> fl (sqrt q) \<and> fl (sqrt q) \<le> 1 / 5"
    using q(1) by (simp add: fnum_simps)
  then show ?thesis unfolding q_def by blast
qed

lemma magnitude_large:
  assumes "accurate fl N" "gx \<le> - 266" "- 268 \<le> gx" "\<bar>gy\<bar> \<le> 7 / 100"
  shows "\<exists>M. fsqrt fl (Some (fl (fl (gx * gx) + fl (gy * gy)))) = Some M \<and> 255 \<le> M"
proof -
  have lo: "266 * 266 \<le> gx * gx"
  proof -
    have "266 * 266 \<le> (- gx) * (- gx)" using assms(2) by (intro mult_mono) simp_all
    then show ?thesis by simp
  qed
  have hi: "gx * gx \<le> 268 * 268"
  proof -
    have "(- gx) * (- gx) \<le> 268 * 268" using assms(2,3) by (intro mult_mono) simp_all
    then show ?thesis by simp
  qed
  have "\<bar>fl (gx * gx) - gx * gx\<bar> \<le> (\<bar>gx * gx\<bar> + 1) / 2 ^ 20" by (rule accurateD(5)[OF assms(1)])
  also have "\<dots> \<le> (268 * 268 + 1) / 2 ^ 20" using lo hi by (intro divide_right_mono) simp_all
  also have "\<dots> \<le> 1 / 10" by simp
  finally have ex: "\<bar>fl (gx * gx) - gx * gx\<bar> \<le> 1 / 10" .
  have sq: "0 \<le> gy * gy" "gy * gy \<le> 1 / 200"
  proof -
    show "0 \<le> gy * gy" by simp
    have "\<bar>gy\<bar> * \<bar>gy\<bar> \<le> 7 / 100 * (7 / 100)" using assms(4) by (intro mult_mono) simp_all
    then show "gy * gy \<le> 1 / 200" by (simp add: abs_mult_self_eq flip: abs_mult)
  qed
  note y = fl_small[OF assms(1) sq]
  define s where "s = fl (gx * gx) + fl (gy * gy)"
  have sb: "70755 \<le> s" "s \<le> 71825" unfolding s_def using ex lo hi y by linarith+
  have "\<bar>fl s - s\<bar> \<le> (\<bar>s\<bar> + 1) / 2 ^ 20" by (rule accurateD(5)[OF assms(1)])
  also have "\<dots> \<le> (71825 + 1) / 2 ^ 20" using sb by (intro divide_right_mono) simp_all
  also have "\<dots> \<le> 1 / 10" by simp
  finally have es: "\<bar>fl s - s\<bar> \<le> 1 / 10" .
  define q where "q = fl s"
  have "65536 \<le> q" "q \<le> 90000" unfolding q_def using es sb by linarith+
  then have qb: "256\<^sup>2 \<le> q" "q \<le> 300\<^sup>2" by simp_all
  have r1: "256 \<le> sqrt q" by (rule real_le_rsqrt) (rule qb(1))
  have r2: "sqrt q \<le> 300" by (rule real_le_lsqrt) (use qb in simp_all)
  have "\<bar>fl (sqrt q) - sqrt q\<bar> \<le> 1 / 1000" by (rule fl_near[OF assms(1)]) (use r1 r2 in simp)
  then have "255 \<le> fl (sqrt q)" using r1 by linarith
  moreover have "\<not> q < 0" using qb(1) by (simp add: not_less)
  ultimately have "fsqrt fl (Some q) = Some (fl (sqrt q)) \<and> 255 \<le> fl (sqrt q)"
    by (simp add: fnum_simps)
  then show ?thesis unfolding q_def s_def by blast
qed

lemma metric_calm:
  assumes "accurate fl N" "0 \<le> E" "E \<le> 1 / 5" "0 \<le> c" "c \<le> 100"
  shows "\<exists>m. combinedMetric fl (Some c) (Some E) = Some m \<and> m \<le> c + 1"
proof -
  have m: "min 255 E = E" using assms(3) by simp
  have a0: "0 \<le> E / 255" and a1: "E / 255 \<le> 1 / 1000" using assms(2,3) by simp_all
  note a = fl_small[OF assms(1) a0 a1]
  have b0: "0 \<le> fl (E / 255) * 80" and b1: "fl (E / 255) * 80 \<le> 1 / 10" using a by simp_all
  note b = fl_small[OF assms(1) b0 b1]
  have "\<bar>fl (c + fl (fl (E / 255) * 80)) - (c + fl (fl (E / 255) * 80))\<bar> \<le> 1 / 1000"
    by (rule fl_near[OF assms(1)]) (use b assms(4,5) in simp)
  then have "fl (c + fl (fl (E / 255) * 80)) \<le> c + 1" using b by linarith
  moreover have "combinedMetric fl (Some c) (Some E) = Some (fl (c + fl (fl (E / 255) * 80)))"
    unfolding combinedMetric_def Let_def jsnum_simps fnum_simps m ..
  ultimately show ?thesis by blast
qed

lemma metric_large:
  assumes "accurate fl N" "216000 \<le> N" "255 \<le> M" "0 \<le> c" "c \<le> 100"
  shows "\<exists>m. combinedMetric fl (Some c) (Some M) = Some m \<and> 79 \<le> m"
proof -
  have m: "min 255 M = 255" using assms(3) by simp
  have f1: "fl 1 = 1" by (rule fl_numeral(3)[OF assms(1,2)])
  have f80: "fl 80 = 80" by (rule fl_numeral(1)[OF assms(1,2)]) simp
  have "\<bar>fl (c + 80) - (c + 80)\<bar> \<le> 1 / 1000" by (rule fl_near[OF assms(1)]) (use assms(4,5) in simp)
  then have "79 \<le> fl (c + 80)" using assms(4) by linarith
  moreover have "combinedMetric fl (Some c) (Some M) = Some (fl (c + 80))"
    by (simp add: combinedMetric_def Let_def jsnum_simps fnum_simps m f1 f80)
  ultimately show ?thesis by blast
qed

section \<open>The pipeline on the ring\<close>

lemma adaptiveThreshold_cases:
  assumes "keepsSign fl"
  shows "adaptiveThreshold fl v = None \<or> (\<exists>t. adaptiveThreshold fl v = Some t \<and> 0 \<le> t)"
proof (cases v)
  case None
  then show ?thesis by (simp add: adaptiveThreshold_def fnum_simps)
next
  case (Some x)
  have fl: "0 \<le> fl a" if "0 \<le> a" for a using assms that by (simp add: keepsSign_def)
  show ?thesis
  proof (cases "x < 0")
    case True
    then show ?thesis by (simp add: adaptiveThreshold_def fnum_simps Some)
  next
    case False
    then have "0 \<le> fl (sqrt x)" by (intro fl) simp
    moreover have "0 \<le> fl 0.7" by (intro fl) simp
    ultimately have "0 \<le> fl (fl (sqrt x) * fl 0.7)" by (intro fl) simp
    then have "0 \<le> fl (32 + fl (fl (sqrt x) * fl 0.7))" by (intro fl) simp
    then show ?thesis using False by (simp add: adaptiveThreshold_def fnum_simps Some)
  qed
qed

lemma ngt_zero_adaptiveThreshold: "keepsSign fl \<Longrightarrow> \<not> ngt (Some 0) (adaptiveThreshold fl v)"
  using adaptiveThreshold_cases[of fl v] by (auto simp: jsnum_simps)

lemma onBorder_not_interior: "onBorder w h p \<Longrightarrow> \<not> isInterior w h p"
  by (auto simp: onBorder_def isInterior_def)

lemma combinedMetric_zero: "keepsSign fl \<Longrightarrow> combinedMetric fl (Some 0) (Some 0) = Some 0"
  by (simp add: combinedMetric_def Let_def jsnum_simps fnum_simps keepsSign_def)

lemma buildMask_not_interior:
  assumes "keepsSign fl" "i < w * h" "\<not> isInterior w h i"
  shows "buildMask fl data w h avgBg (adaptiveThreshold fl v) ! i = 0"
  using assms by (simp add: buildMask_nth combinedMetric_zero ngt_zero_adaptiveThreshold)

lemma refineMask_not_interior:
  assumes "length msk = w * h" "i < w * h" "\<not> isInterior w h i"
  shows "refineMask fl data w h avgBg threshold msk ! i = msk ! i"
  using assms by (simp add: refineMask_nth)

lemma floodFillHoles_border:
  assumes "length msk = w * h" "onBorder w h p"
  shows "floodFillHoles msk w h ! p = msk ! p"
proof -
  have "p < w * h" using assms(2) by (simp add: onBorder_def)
  moreover have "p \<in> reachable msk w h" using assms(2) by (rule reachable.border)
  ultimately show ?thesis using assms(1) by (simp add: floodFillHoles_nth)
qed

lemma improvedWatchMask_length: "length (improvedWatchMask fl data w h avgBg threshold) = w * h"
  by (simp add: improvedWatchMask_def floodFillHoles_length refineMask_length buildMask_length)

lemma processWatchImage_alpha:
  assumes "length data = 4 * (w * h)" "p < w * h"
  shows "processWatchImage fl data w h ! (4 * p + 3) =
     (if improvedWatchMask fl data w h (avgBackground fl data w h) (pipelineThreshold fl data w h) ! p = 0
      then 0 else data ! (4 * p + 3))"
proof -
  have lt: "4 * p + 3 < length data" using assms by simp
  have d: "(4 * p + 3) div 4 = p" "(4 * p + 3) mod 4 = 3" by presburger+
  show ?thesis
    unfolding processWatchImage_def applyMask_nth[OF lt] d improvedWatchMask_length
    using assms(2) by simp
qed

lemma collectSamples_foldl:
  "foldl (\<lambda>samples (x, y). addSample samples x y w data) acc cs = acc @ map (sampleAt data w) cs"
  by (induction cs arbitrary: acc) (auto simp: addSample_def sampleAt_def Let_def)

lemma collectSamples_map: "collectSamples data w h = map (sampleAt data w) (sampleCoords w h)"
  by (simp add: collectSamples_def collectSamples_foldl)

lemma sampleCoords_nonempty:
  assumes "0 < w"
  shows "sampleCoords w h \<noteq> []"
proof -
  have "0 < borderWidth w h" by (simp add: borderWidth_def)
  then have "(0, 0) \<in> set [(x, y). x \<leftarrow> [0..<w], y \<leftarrow> [0..<borderWidth w h]]"
    using assms by (auto simp: image_iff intro!: bexI[of _ 0])
  then have "[(x, y). x \<leftarrow> [0..<w], y \<leftarrow> [0..<borderWidth w h]] \<noteq> []"
    by (metis empty_iff empty_set)
  then obtain c cs where "[(x, y). x \<leftarrow> [0..<w], y \<leftarrow> [0..<borderWidth w h]] = c # cs"
    by (meson neq_Nil_conv)
  then show ?thesis
    by (simp add: sampleCoords_def Let_def split_def)
qed

lemma isUniform_chan:
  assumes "isUniform data n cr cg cb" "p < n"
  shows "chanR data p = real (unat cr)" "chanG data p = real (unat cg)" "chanB data p = real (unat cb)"
  using assms by (simp_all add: isUniform_def list_all_iff chanR_def chanG_def chanB_def)

lemma sample_uniform:
  assumes "length data = 4 * n" "isUniform data n cr cg cb"
  shows "(r (sampleAt data w c) = Some (real (unat cr)) \<and> g (sampleAt data w c) = Some (real (unat cg)) \<and>
          b (sampleAt data w c) = Some (real (unat cb))) \<or>
         (r (sampleAt data w c) = None \<and> g (sampleAt data w c) = None \<and> b (sampleAt data w c) = None)"
proof -
  obtain x y where c: "c = (x, y)" by (cases c) auto
  define q where "q = y * int w + x"
  show ?thesis
  proof (cases "0 \<le> q \<and> q < int n")
    case True
    define p where "p = nat q"
    have plt: "p < n" using True unfolding p_def by linarith
    have qp: "q = int p" using True by (simp add: p_def)
    show ?thesis
      unfolding c sampleAt_def prod.case q_def[symmetric] qp
      by (simp add: get_pixel[OF assms(1) plt] isUniform_chan[OF assms(2) plt])
  next
    case False
    then have "q * 4 + 2 < 0 \<or> int (length data) \<le> q * 4" using assms(1) by auto
    then have "get data (q * 4) = None" "get data (q * 4 + 1) = None" "get data (q * 4 + 2) = None"
      by (auto simp: get_def)
    then show ?thesis
      unfolding c sampleAt_def prod.case q_def[symmetric] by simp
  qed
qed

lemma refineMask_all_zero:
  assumes "length msk = w * h" "\<forall>i < w * h. msk ! i = 0" "i < w * h"
  shows "refineMask fl data w h avgBg threshold msk ! i = 0"
proof -
  have "\<not> (isInterior w h i \<and> msk ! i = 0 \<and> hasNeighbor msk w (i mod w) (i div w))"
  proof
    assume a: "isInterior w h i \<and> msk ! i = 0 \<and> hasNeighbor msk w (i mod w) (i div w)"
    then obtain n where "adjacent8 w h i n" "msk ! n = 1"
      using hasNeighbor_interior[of w h i msk] by blast
    then show False using assms(2) by (auto simp: adjacent8_def)
  qed
  then show ?thesis
    using assms by (auto simp: refineMask_nth)
qed

lemma reachable_column:
  assumes "\<forall>i < w * h. msk ! i = 0" "x < w"
  shows "y < h \<Longrightarrow> y * w + x \<in> reachable msk w h"
proof (induction y)
  case 0
  have "x < w * h" using idx_lt[OF assms(2) 0] by simp
  then have "onBorder w h x" using assms(2) by (simp add: onBorder_def)
  then show ?case by (simp add: reachable.border)
next
  case (Suc y)
  then have yh: "y < h" by simp
  have p: "y * w + x \<in> reachable msk w h" by (rule Suc.IH[OF yh])
  have lt1: "y * w + x < w * h" by (rule idx_lt[OF assms(2) yh])
  have lt2: "Suc y * w + x < w * h" by (rule idx_lt[OF assms(2) Suc.prems])
  have a: "adjacent4 w h (y * w + x) (Suc y * w + x)"
    unfolding adjacent4_def idx_div_mod[OF assms(2)] using lt1 lt2 by simp
  have z: "msk ! (Suc y * w + x) = 0" using assms(1) lt2 by simp
  show ?case by (rule reachable.step[OF p a z])
qed

lemma reachable_all_zero:
  assumes "\<forall>i < w * h. msk ! i = 0" "i < w * h"
  shows "i \<in> reachable msk w h"
proof -
  have w: "0 < w" using assms(2) by (cases w) auto
  have "i mod w < w" using w by simp
  moreover have "i div w < h" using assms(2) w by (simp add: less_mult_imp_div_less mult.commute)
  ultimately have "(i div w) * w + i mod w \<in> reachable msk w h"
    by (rule reachable_column[OF assms(1)])
  then show ?thesis by simp
qed

section \<open>Border Sampler\<close>

lemma band_sets:
  "set [(x, y). x \<leftarrow> [0..<w], y \<leftarrow> [0..<bw]] = {(x, y). x < w \<and> y < bw}"
  "set [(x, y). y \<leftarrow> [bw..<h - bw], x \<leftarrow> [0..<bw]] = {(x, y). bw \<le> y \<and> y < h - bw \<and> x < bw}"
  by (auto simp: image_iff)

lemma sampleCoords_set:
  "set (sampleCoords w h) =
     {(int x, int y) | x y. x < w \<and> y < borderWidth w h} \<union>
     {(int x, int h - int y - 1) | x y. x < w \<and> y < borderWidth w h} \<union>
     {(int x, int y) | x y. borderWidth w h \<le> y \<and> y < h - borderWidth w h \<and> x < borderWidth w h} \<union>
     {(int w - int x - 1, int y) | x y. borderWidth w h \<le> y \<and> y < h - borderWidth w h \<and> x < borderWidth w h}"
proof -
  define bw where "bw = borderWidth w h"
  define top where "top = [(x, y). x \<leftarrow> [0..<w], y \<leftarrow> [0..<bw]]"
  define side where "side = [(x, y). y \<leftarrow> [bw..<h - bw], x \<leftarrow> [0..<bw]]"
  have sc: "sampleCoords w h =
      concat (map (\<lambda>(x, y). [(int x, int y), (int x, int h - int y - 1)]) top) @
      concat (map (\<lambda>(x, y). [(int x, int y), (int w - int x - 1, int y)]) side)"
    unfolding sampleCoords_def Let_def top_def side_def bw_def ..
  have t: "set top = {(x, y). x < w \<and> y < bw}" unfolding top_def by (rule band_sets(1))
  have s: "set side = {(x, y). bw \<le> y \<and> y < h - bw \<and> x < bw}" unfolding side_def by (rule band_sets(2))
  show ?thesis
    unfolding sc bw_def[symmetric] by (auto simp: t s)
qed

lemma borderWidth_ge: "10 \<le> borderWidth w h"
  by (simp add: borderWidth_def)

lemma borderWidth_le: "10 \<le> h \<Longrightarrow> borderWidth w h \<le> h"
proof -
  assume h: "10 \<le> h"
  have "min w h * 3 div 100 \<le> h * 3 div 100" by (intro div_le_mono) simp
  also have "\<dots> \<le> h" by simp
  finally show ?thesis using h by (simp add: borderWidth_def)
qed

lemma int_idx_lt:
  fixes x y w h :: int
  assumes "0 \<le> x" "x < w" "0 \<le> y" "y < h"
  shows "0 \<le> y * w + x" "y * w + x < w * h"
proof -
  show "0 \<le> y * w + x" using assms by simp
  have "y + 1 \<le> h" using assms by simp
  then have "(y + 1) * w \<le> h * w" using assms by (intro mult_right_mono) simp_all
  then show "y * w + x < w * h" using assms by (simp add: algebra_simps)
qed

lemma sampler_in_bounds_if:
  assumes "1 \<le> w" "10 \<le> h" "c \<in> set (sampleCoords w h)"
  shows "sampleInBounds w h c"
proof -
  define bw where "bw = borderWidth w h"
  have b: "10 \<le> bw" "bw \<le> h"
    using borderWidth_ge[of w h] borderWidth_le[OF assms(2), of w] by (simp_all add: bw_def)
  from assms(3) consider
      (top) x y where "c = (int x, int y)" "x < w" "y < bw"
    | (bottom) x y where "c = (int x, int h - int y - 1)" "x < w" "y < bw"
    | (left) x y where "c = (int x, int y)" "bw \<le> y" "y < h - bw" "x < bw"
    | (right) x y where "c = (int w - int x - 1, int y)" "bw \<le> y" "y < h - bw" "x < bw"
    unfolding sampleCoords_set bw_def by blast
  then show ?thesis
  proof cases
    case top
    then have "int y < int h" using b by simp
    from int_idx_lt[OF _ _ _ this, of "int x" "int w"] top show ?thesis
      by (simp add: sampleInBounds_def)
  next
    case bottom
    then have "0 \<le> int h - int y - 1" "int h - int y - 1 < int h" using b by simp_all
    from int_idx_lt[OF _ _ this, of "int x" "int w"] bottom show ?thesis
      by (simp add: sampleInBounds_def)
  next
    case left
    have 1: "0 \<le> int y * int w + int x" by simp
    have "int y + int bw + 1 \<le> int h" using left by simp
    then have h1: "(int y + int bw + 1) * int w \<le> int h * int w" by (intro mult_right_mono) simp_all
    have e1: "(int y + int bw + 1) * int w = int y * int w + int bw * int w + int w"
      by (simp add: algebra_simps)
    have "int bw * 1 \<le> int bw * int w" using assms(1) by (intro mult_left_mono) simp_all
    then have h2: "int bw \<le> int bw * int w" by simp
    have "int y * int w + int x < int h * int w" using h1 h2 e1 left(4) assms(1) by linarith
    then have "int y * int w + int x < int (w * h)" by (simp add: mult.commute)
    with 1 left show ?thesis by (simp add: sampleInBounds_def del: of_nat_mult)
  next
    case right
    have "int x + 1 \<le> int y" using right by simp
    then have h1: "(int x + 1) * int w \<le> int y * int w" by (intro mult_right_mono) simp_all
    have e1: "(int x + 1) * int w = int x * int w + int w" by (simp add: algebra_simps)
    have "int x * 1 \<le> int x * int w" using assms(1) by (intro mult_left_mono) simp_all
    then have h2: "int x \<le> int x * int w" by simp
    have 1: "0 \<le> int y * int w + (int w - int x - 1)" using h1 h2 e1 assms(1) by linarith
    have "int y + 1 \<le> int h" using right by simp
    then have h3: "(int y + 1) * int w \<le> int h * int w" by (intro mult_right_mono) simp_all
    have e3: "(int y + 1) * int w = int y * int w + int w" by (simp add: algebra_simps)
    have "int y * int w + (int w - int x - 1) < int h * int w" using h3 e3 by linarith
    then have "int y * int w + (int w - int x - 1) < int (w * h)" by (simp add: mult.commute)
    with 1 right show ?thesis by (simp add: sampleInBounds_def del: of_nat_mult)
  qed
qed

lemma sampler_out_of_bounds:
  assumes "1 \<le> w" "h < 10"
  shows "(0, int h) \<in> set (sampleCoords w h)" "\<not> sampleInBounds w h (0, int h)"
proof -
  have "h < borderWidth w h" using assms(2) borderWidth_ge[of w h] by simp
  then show "(0, int h) \<in> set (sampleCoords w h)"
    unfolding sampleCoords_set using assms(1) by auto
  show "\<not> sampleInBounds w h (0, int h)"
    by (simp add: sampleInBounds_def mult.commute)
qed

lemma sampleAt_defined:
  assumes "length data = 4 * (w * h)" "sampleInBounds w h c"
  shows "r (sampleAt data w c) \<noteq> None \<and> g (sampleAt data w c) \<noteq> None \<and> b (sampleAt data w c) \<noteq> None"
proof -
  obtain x y where c: "c = (x, y)" by (cases c) auto
  define p where "p = nat (y * int w + x)"
  have bnd: "0 \<le> y * int w + x" "y * int w + x < int (w * h)"
    using assms(2) unfolding c sampleInBounds_def prod.case by blast+
  have q: "y * int w + x = int p" using bnd(1) by (simp add: p_def)
  have plt: "p < w * h" using bnd unfolding p_def by linarith
  show ?thesis
    unfolding c sampleAt_def prod.case q by (simp add: get_pixel[OF assms(1) plt])
qed

lemma sampler_in_bounds_iff:
  assumes "1 \<le> w" "1 \<le> h" "length data = 4 * (w * h)"
  shows "((\<forall>c \<in> set (sampleCoords w h). sampleInBounds w h c) \<longleftrightarrow> 10 \<le> h) \<and>
         (10 \<le> h \<longrightarrow> (\<forall>s \<in> set (collectSamples data w h). r s \<noteq> None \<and> g s \<noteq> None \<and> b s \<noteq> None))"
proof (intro conjI impI)
  show "(\<forall>c \<in> set (sampleCoords w h). sampleInBounds w h c) \<longleftrightarrow> 10 \<le> h"
    using sampler_in_bounds_if[OF assms(1)] sampler_out_of_bounds[OF assms(1)]
    by (meson not_le)
next
  assume "10 \<le> h"
  then show "\<forall>s \<in> set (collectSamples data w h). r s \<noteq> None \<and> g s \<noteq> None \<and> b s \<noteq> None"
    unfolding collectSamples_map
    using sampleAt_defined[OF assms(3)] sampler_in_bounds_if[OF assms(1)] by auto
qed

section \<open>Images with fewer than ten rows\<close>

text \<open>
  With fewer than ten rows the top and bottom loop reads the position \<open>(0, height)\<close>,
  one row below the image. The sample is \<^verbatim>\<open>undefined\<close> in every channel, the sums
  and the mean of \<^verbatim>\<open>calculateAverageColor\<close> are \<^verbatim>\<open>NaN\<close>, so are the variance and
  the threshold, no comparison with the threshold holds, and every pixel is labeled
  background.
\<close>

lemma sums_None:
  "fst (foldl (sumStep fl) (None, gs, bs) samples) = None"
  by (induction samples arbitrary: gs bs) (simp_all add: sumStep_def fnum_simps)

lemma sums_None_sample:
  assumes "s \<in> set samples" "r s = None"
  shows "fst (foldl (sumStep fl) acc samples) = None"
  using assms
proof (induction samples arbitrary: acc)
  case Nil
  then show ?case by simp
next
  case (Cons a samples)
  obtain rs gs bs where acc: "acc = (rs, gs, bs)" by (cases acc) auto
  show ?case
  proof (cases "a = s")
    case True
    then have "sumStep fl acc a = (None, fadd fl gs (g s), fadd fl bs (b s))"
      using Cons.prems(2) by (simp add: sumStep_def acc fnum_simps)
    then show ?thesis by (simp add: sums_None)
  next
    case False
    then have "s \<in> set samples" using Cons.prems(1) by simp
    from Cons.IH[OF this Cons.prems(2)] show ?thesis by simp
  qed
qed

lemma average_None:
  assumes "s \<in> set samples" "r s = None"
  shows "r (calculateAverageColor fl samples) = None"
proof -
  have ne: "length samples \<noteq> 0" using assms(1) by auto
  obtain rs gs bs where f: "foldl (sumStep fl) (Some 0, Some 0, Some 0) samples = (rs, gs, bs)"
    by (metis prod_cases3)
  have "rs = None" using sums_None_sample[OF assms, of fl "(Some 0, Some 0, Some 0)"] f by simp
  then show ?thesis
    using ne f unfolding calculateAverageColor_def sumStep_def
    by (simp add: Let_def fnum_simps)
qed

lemma squares_None:
  assumes "r avg = None"
  shows "foldl (\<lambda>acc s.
                  fadd fl acc
                    (fadd fl (fadd fl (fmul fl (fsub fl (r s) (r avg)) (fsub fl (r s) (r avg)))
                                      (fmul fl (fsub fl (g s) (g avg)) (fsub fl (g s) (g avg))))
                             (fmul fl (fsub fl (b s) (b avg)) (fsub fl (b s) (b avg)))))
           acc (s # samples) = None"
proof -
  have "foldl (\<lambda>acc s.
                  fadd fl acc
                    (fadd fl (fadd fl (fmul fl (fsub fl (r s) (r avg)) (fsub fl (r s) (r avg)))
                                      (fmul fl (fsub fl (g s) (g avg)) (fsub fl (g s) (g avg))))
                             (fmul fl (fsub fl (b s) (b avg)) (fsub fl (b s) (b avg)))))
           None xs = None" for xs
    by (induction xs) (simp_all add: fnum_simps)
  then show ?thesis by (simp add: fnum_simps assms)
qed

lemma variance_None:
  assumes "r avg = None" "1 < length samples"
  shows "calculateColorVariance fl samples avg = None"
proof -
  obtain s rest where sr: "samples = s # rest" using assms(2) by (cases samples) auto
  have "\<not> length (s # rest) \<le> 1" using assms(2) by (simp add: sr)
  then show ?thesis
    unfolding calculateColorVariance_def Let_def sr squares_None[OF assms(1)]
    by (simp only: if_False fnum_simps)
qed

lemma sampleCoords_length:
  assumes "0 < w"
  shows "1 < length (sampleCoords w h)"
proof -
  have "0 < borderWidth w h" by (simp add: borderWidth_def)
  then have "(0, 0) \<in> set [(x, y). x \<leftarrow> [0..<w], y \<leftarrow> [0..<borderWidth w h]]"
    using assms by (auto simp: image_iff intro!: bexI[of _ 0])
  then have "[(x, y). x \<leftarrow> [0..<w], y \<leftarrow> [0..<borderWidth w h]] \<noteq> []"
    by (metis empty_iff empty_set)
  then obtain c cs where "[(x, y). x \<leftarrow> [0..<w], y \<leftarrow> [0..<borderWidth w h]] = c # cs"
    by (meson neq_Nil_conv)
  then show ?thesis
    by (simp add: sampleCoords_def Let_def split_def)
qed

lemma sample_below_image:
  assumes "length data = 4 * (w * h)"
  shows "r (sampleAt data w (0, int h)) = None"
proof -
  have "int (length data) \<le> int h * int w * 4" using assms by (simp add: mult.commute)
  then show ?thesis by (simp add: sampleAt_def get_def)
qed

lemma short_image_NaN:
  assumes "1 \<le> w" "h < 10" "length data = 4 * (w * h)"
  shows "r (avgBackground fl data w h) = None" "pipelineThreshold fl data w h = None"
proof -
  have m: "sampleAt data w (0, int h) \<in> set (collectSamples data w h)"
    unfolding collectSamples_map using sampler_out_of_bounds(1)[OF assms(1,2)] by simp
  show a: "r (avgBackground fl data w h) = None"
    unfolding avgBackground_def by (rule average_None[OF m sample_below_image[OF assms(3)]])
  have "1 < length (collectSamples data w h)"
    unfolding collectSamples_map using sampleCoords_length[of w h] assms(1) by simp
  from variance_None[OF a this]
  show "pipelineThreshold fl data w h = None"
    by (simp add: pipelineThreshold_def adaptiveThreshold_def fnum_simps)
qed

lemma short_image_erased:
  assumes "1 \<le> w" "h < 10" "length data = 4 * (w * h)" "p < w * h"
  shows "processWatchImage fl data w h ! (4 * p + 3) = 0"
proof -
  define avg where "avg = avgBackground fl data w h"
  define m1 where "m1 = buildMask fl data w h avg None"
  define m2 where "m2 = refineMask fl data w h avg None m1"
  have thr: "pipelineThreshold fl data w h = None" by (rule short_image_NaN(2)[OF assms(1,2,3)])
  have l1: "length m1 = w * h" by (simp add: m1_def buildMask_length)
  have l2: "length m2 = w * h" by (simp add: m2_def refineMask_length l1)
  have z1: "\<forall>i < w * h. m1 ! i = 0"
    by (simp add: m1_def buildMask_nth jsnum_simps)
  have z2: "\<forall>i < w * h. m2 ! i = 0"
    unfolding m2_def using refineMask_all_zero[OF l1 z1] by blast
  have "improvedWatchMask fl data w h avg None ! p = 0"
    unfolding improvedWatchMask_def m1_def[symmetric] m2_def[symmetric]
    using floodFillHoles_nth[OF l2 assms(4)] reachable_all_zero[OF z2 assms(4)] z2 assms(4) by simp
  then show ?thesis
    using processWatchImage_alpha[OF assms(3,4), of fl] by (simp add: avg_def thr)
qed

section \<open>Uniform images\<close>

text \<open>
  On an image of one colour with at least ten rows every sample is that colour. For an
  accurate rounding the sums of \<^verbatim>\<open>calculateAverageColor\<close> are integers and exact, so
  the BackgroundColor is the colour of the image, the variance is \<open>0\<close> and the
  threshold is \<open>32\<close>; the colour distance of every pixel is \<open>0\<close> and the rounded
  Sobel sums are within \<open>7 / 100\<close> of \<open>0\<close>, so the combined metric is at most \<open>1\<close>.
\<close>

lemma sums_uniform:
  assumes "accurate fl N"
    and "\<forall>s \<in> set samples. r s = Some (real a) \<and> g s = Some (real c) \<and> b s = Some (real d)"
    and "(k + length samples) * a \<le> N" "(k + length samples) * c \<le> N" "(k + length samples) * d \<le> N"
  shows "foldl (sumStep fl) (Some (real (k * a)), Some (real (k * c)), Some (real (k * d))) samples =
           (Some (real ((k + length samples) * a)), Some (real ((k + length samples) * c)),
            Some (real ((k + length samples) * d)))"
  using assms(2-)
proof (induction samples arbitrary: k)
  case Nil
  then show ?case by simp
next
  case (Cons s samples)
  have le: "Suc k * a \<le> N" "Suc k * c \<le> N" "Suc k * d \<le> N"
  proof -
    have "Suc k * a \<le> (k + length (s # samples)) * a" by (intro mult_right_mono) simp_all
    then show "Suc k * a \<le> N" using Cons.prems(2) by linarith
    have "Suc k * c \<le> (k + length (s # samples)) * c" by (intro mult_right_mono) simp_all
    then show "Suc k * c \<le> N" using Cons.prems(3) by linarith
    have "Suc k * d \<le> (k + length (s # samples)) * d" by (intro mult_right_mono) simp_all
    then show "Suc k * d \<le> N" using Cons.prems(4) by linarith
  qed
  have e: "real (k * a) + real a = real (Suc k * a)" "real (k * c) + real c = real (Suc k * c)"
    "real (k * d) + real d = real (Suc k * d)"
    by (simp_all add: algebra_simps)
  have s: "r s = Some (real a)" "g s = Some (real c)" "b s = Some (real d)"
    using Cons.prems(1) by simp_all
  have step: "sumStep fl (Some (real (k * a)), Some (real (k * c)), Some (real (k * d))) s =
      (Some (real (Suc k * a)), Some (real (Suc k * c)), Some (real (Suc k * d)))"
    unfolding sumStep_def prod.case s fnum_simps e
    by (simp only: accurateD(3)[OF assms(1) le(1)] accurateD(3)[OF assms(1) le(2)]
        accurateD(3)[OF assms(1) le(3)])
  have "foldl (sumStep fl) (Some (real (Suc k * a)), Some (real (Suc k * c)), Some (real (Suc k * d))) samples =
           (Some (real ((Suc k + length samples) * a)), Some (real ((Suc k + length samples) * c)),
            Some (real ((Suc k + length samples) * d)))"
    by (rule Cons.IH) (use Cons.prems in simp_all)
  then show ?case
    unfolding foldl_Cons step by simp
qed

lemma average_uniform:
  assumes "accurate fl N" "samples \<noteq> []"
    and "\<forall>s \<in> set samples. r s = Some (real a) \<and> g s = Some (real c) \<and> b s = Some (real d)"
    and "length samples * a \<le> N" "length samples * c \<le> N" "length samples * d \<le> N"
  shows "calculateAverageColor fl samples = \<lparr>r = Some (real a), g = Some (real c), b = Some (real d)\<rparr>"
proof -
  define n where "n = length samples"
  have n: "0 < n" using assms(2) by (simp add: n_def)
  have "a \<le> n * a" "c \<le> n * c" "d \<le> n * d" using n by (cases n; simp)+
  then have le: "a \<le> N" "c \<le> N" "d \<le> N" using assms(4,5,6) unfolding n_def by linarith+
  have "foldl (sumStep fl) (Some (real (0 * a)), Some (real (0 * c)), Some (real (0 * d))) samples =
           (Some (real ((0 + length samples) * a)), Some (real ((0 + length samples) * c)),
            Some (real ((0 + length samples) * d)))"
    by (rule sums_uniform[OF assms(1,3)]) (use assms in simp_all)
  then have f: "foldl (sumStep fl) (Some 0, Some 0, Some 0) samples =
      (Some (real (n * a)), Some (real (n * c)), Some (real (n * d)))"
    by (simp add: n_def)
  have q: "real (n * a) / real n = real a" "real (n * c) / real n = real c" "real (n * d) / real n = real d"
    using n by simp_all
  have "calculateAverageColor fl samples =
      \<lparr>r = fdiv fl (Some (real (n * a))) (Some (real n)), g = fdiv fl (Some (real (n * c))) (Some (real n)),
       b = fdiv fl (Some (real (n * d))) (Some (real n))\<rparr>"
    using n f unfolding calculateAverageColor_def sumStep_def n_def[symmetric] by (simp add: Let_def)
  then show ?thesis
    unfolding fnum_simps q
    by (simp only: accurateD(3)[OF assms(1) le(1)] accurateD(3)[OF assms(1) le(2)]
        accurateD(3)[OF assms(1) le(3)])
qed

lemma squares_zero:
  assumes "fl 0 = 0"
    and "\<forall>s \<in> set samples. r s = Some R \<and> g s = Some G \<and> b s = Some B"
  shows "foldl (\<lambda>acc s.
                  fadd fl acc
                    (fadd fl (fadd fl (fmul fl (fsub fl (r s) (Some R)) (fsub fl (r s) (Some R)))
                                      (fmul fl (fsub fl (g s) (Some G)) (fsub fl (g s) (Some G))))
                             (fmul fl (fsub fl (b s) (Some B)) (fsub fl (b s) (Some B)))))
           (Some 0) samples = Some 0"
  using assms(2)
proof (induction samples)
  case Nil
  show ?case by simp
next
  case (Cons s samples)
  have s: "r s = Some R" "g s = Some G" "b s = Some B" using Cons.prems by simp_all
  have "\<forall>s \<in> set samples. r s = Some R \<and> g s = Some G \<and> b s = Some B" using Cons.prems by simp
  from Cons.IH[OF this] show ?case
    unfolding foldl_Cons s fnum_simps by (simp only: diff_self mult_zero_left add_0 assms(1))
qed

lemma variance_uniform:
  assumes "accurate fl N"
    and "\<forall>s \<in> set samples. r s = Some R \<and> g s = Some G \<and> b s = Some B"
  shows "calculateColorVariance fl samples \<lparr>r = Some R, g = Some G, b = Some B\<rparr> = Some 0"
proof -
  note z = accurateD(1)[OF assms(1)]
  show ?thesis
    unfolding calculateColorVariance_def Let_def color.simps squares_zero[where fl = fl, OF z assms(2)] fnum_simps
    by (simp only: z div_0 if_cancel)
qed

lemma adaptiveThreshold_zero:
  assumes "accurate fl N" "32 \<le> N"
  shows "adaptiveThreshold fl (Some 0) = Some 32"
proof -
  have "fl (real 32) = real 32" by (rule accurateD(3)[OF assms])
  then have "fl 32 = 32" by simp
  then show ?thesis
    by (simp add: adaptiveThreshold_def fnum_simps accurateD(1)[OF assms(1)])
qed

lemma colorDistance_same:
  assumes "accurate fl N"
    and "chanR data p = R" "chanG data p = G" "chanB data p = B"
  shows "colorDistance fl data \<lparr>r = Some R, g = Some G, b = Some B\<rparr> p = Some 0"
  by (simp add: colorDistance_def weights_def assms(2,3,4) Let_def fnum_simps accurateD(1)[OF assms(1)])

lemma samples_uniform:
  assumes "length data = 4 * (w * h)" "isUniform data (w * h) cr cg cb" "1 \<le> w" "10 \<le> h"
  shows "\<forall>s \<in> set (collectSamples data w h).
           r s = Some (real (unat cr)) \<and> g s = Some (real (unat cg)) \<and> b s = Some (real (unat cb))"
proof -
  have "r (sampleAt data w c) = Some (real (unat cr)) \<and> g (sampleAt data w c) = Some (real (unat cg)) \<and>
        b (sampleAt data w c) = Some (real (unat cb))" if "c \<in> set (sampleCoords w h)" for c
    using sample_uniform[OF assms(1,2), of w c]
      sampleAt_defined[OF assms(1) sampler_in_bounds_if[OF assms(3,4) that]] by auto
  then show ?thesis unfolding collectSamples_map by simp
qed

lemma pipeline_uniform:
  assumes "accurate fl N" "765 \<le> N" "255 * length (sampleCoords w h) \<le> N"
    and "length data = 4 * (w * h)" "isUniform data (w * h) cr cg cb" "1 \<le> w" "10 \<le> h"
  shows "avgBackground fl data w h =
           \<lparr>r = Some (real (unat cr)), g = Some (real (unat cg)), b = Some (real (unat cb))\<rparr>"
    and "pipelineThreshold fl data w h = Some 32"
proof -
  define samples where "samples = collectSamples data w h"
  note u = samples_uniform[OF assms(4,5,6,7), folded samples_def]
  have len: "length samples = length (sampleCoords w h)" by (simp add: samples_def collectSamples_map)
  have ne: "samples \<noteq> []"
    using sampleCoords_nonempty[of w h] assms(6) by (simp add: samples_def collectSamples_map)
  have byte: "unat v \<le> 255" for v :: "8 word" using unsigned_less[of v, where 'a = nat] by simp
  have le: "length samples * unat v \<le> N" for v :: "8 word"
  proof -
    have "length samples * unat v \<le> length samples * 255" by (intro mult_left_mono byte) simp
    then show ?thesis using assms(3) unfolding len by linarith
  qed
  show a: "avgBackground fl data w h =
           \<lparr>r = Some (real (unat cr)), g = Some (real (unat cg)), b = Some (real (unat cb))\<rparr>"
    unfolding avgBackground_def samples_def[symmetric]
    by (rule average_uniform[OF assms(1) ne u le le le])
  have "32 \<le> N" using assms(2) by simp
  from adaptiveThreshold_zero[OF assms(1) this]
  show "pipelineThreshold fl data w h = Some 32"
    unfolding pipelineThreshold_def a samples_def[symmetric] variance_uniform[OF assms(1) u] .
qed

lemma sobelG_uniform:
  assumes "isUniform data (w * h) cr cg cb" "1 \<le> x" "x < w - 1" "1 \<le> y" "y < h - 1"
  shows "sobelGx data w x y = 0" "sobelGy data w x y = 0"
proof -
  define I where "I = (real (unat cr) + real (unat cg) + real (unat cb)) / 3"
  have int: "exactIntensity data w x' y' = I" if "x' < w" "y' < h" for x' y'
    unfolding exactIntensity_def I_def using isUniform_chan[OF assms(1) idx_lt[OF that]] by simp
  have xs: "x - 1 < w" "x < w" "x + 1 < w" and ys: "y - 1 < h" "y < h" "y + 1 < h"
    using assms by linarith+
  show "sobelGx data w x y = 0"
    unfolding sobelGx_def int[OF xs(3) ys(1)] int[OF xs(3) ys(2)] int[OF xs(3) ys(3)]
      int[OF xs(1) ys(1)] int[OF xs(1) ys(2)] int[OF xs(1) ys(3)] by simp
  show "sobelGy data w x y = 0"
    unfolding sobelGy_def int[OF xs(1) ys(3)] int[OF xs(2) ys(3)] int[OF xs(3) ys(3)]
      int[OF xs(1) ys(1)] int[OF xs(2) ys(1)] int[OF xs(3) ys(1)] by simp
qed

lemma buildMask_uniform:
  assumes "accurate fl N" "765 \<le> N" "255 * length (sampleCoords w h) \<le> N"
    and "length data = 4 * (w * h)" "isUniform data (w * h) cr cg cb" "10 \<le> h" "i < w * h"
  shows "buildMask fl data w h (avgBackground fl data w h) (pipelineThreshold fl data w h) ! i = 0"
proof (cases "isInterior w h i")
  case False
  then show ?thesis
    unfolding pipelineThreshold_def
    by (rule buildMask_not_interior[OF accurate_keepsSign[OF assms(1)] assms(7)])
next
  case True
  then have xy: "1 \<le> i mod w" "i mod w < w - 1" "1 \<le> i div w" "i div w < h - 1"
    by (simp_all add: isInterior_def)
  have w: "1 \<le> w" using xy by linarith
  have e: "(i div w) * w + i mod w = i" by simp
  note p = pipeline_uniform[OF assms(1,2,3,4,5) w assms(6)]
  have cd: "colorDistance fl data (avgBackground fl data w h) i = Some 0"
    unfolding p(1) by (rule colorDistance_same[OF assms(1) isUniform_chan[OF assms(5,7)]])
  have gx: "\<bar>sobelSum fl sobelX data w (i mod w) (i div w)\<bar> \<le> 7 / 100"
    using sobelSum_exact(1)[OF assms(1,2), of data w "i mod w" "i div w"]
    unfolding sobelG_uniform(1)[OF assms(5) xy] by simp
  have gy: "\<bar>sobelSum fl sobelY data w (i mod w) (i div w)\<bar> \<le> 7 / 100"
    using sobelSum_exact(2)[OF assms(1,2), of data w "i mod w" "i div w"]
    unfolding sobelG_uniform(2)[OF assms(5) xy] by simp
  obtain E where E: "sobelMagnitude fl data w (i mod w) (i div w) = Some E" "0 \<le> E" "E \<le> 1 / 5"
    using magnitude_small[OF assms(1) gx gy] unfolding sobelMagnitude_def Let_def by blast
  obtain m where m: "combinedMetric fl (Some 0) (Some E) = Some m" "m \<le> 1"
    using metric_calm[OF assms(1) E(2,3), of 0] by auto
  have "\<not> ngt (Some m) (Some 32)" using m(2) by (simp add: jsnum_simps)
  then show ?thesis
    using buildMask_interior[OF assms(4) xy, of fl "avgBackground fl data w h" "pipelineThreshold fl data w h"]
    unfolding e cd E(1) m(1) p(2) by simp
qed

lemma uniform_alpha:
  assumes "accurate fl N" "765 \<le> N" "255 * length (sampleCoords w h) \<le> N"
    and "length data = 4 * (w * h)" "isUniform data (w * h) cr cg cb" "p < w * h"
  shows "processWatchImage fl data w h ! (4 * p + 3) = 0"
proof (cases "h < 10")
  case True
  have "1 \<le> w" using assms(6) by (cases w) simp_all
  then show ?thesis by (rule short_image_erased[OF _ True assms(4,6)])
next
  case False
  then have h: "10 \<le> h" by simp
  define avg where "avg = avgBackground fl data w h"
  define thr where "thr = pipelineThreshold fl data w h"
  define m1 where "m1 = buildMask fl data w h avg thr"
  define m2 where "m2 = refineMask fl data w h avg thr m1"
  have l1: "length m1 = w * h" by (simp add: m1_def buildMask_length)
  have l2: "length m2 = w * h" by (simp add: m2_def refineMask_length l1)
  have z1: "\<forall>i < w * h. m1 ! i = 0"
    unfolding m1_def avg_def thr_def using buildMask_uniform[OF assms(1,2,3,4,5) h] by blast
  have z2: "\<forall>i < w * h. m2 ! i = 0"
    unfolding m2_def using refineMask_all_zero[OF l1 z1] by blast
  have "improvedWatchMask fl data w h avg thr ! p = 0"
    unfolding improvedWatchMask_def m1_def[symmetric] m2_def[symmetric]
    using floodFillHoles_nth[OF l2 assms(6)] reachable_all_zero[OF z2 assms(6)] z2 assms(6) by simp
  then show ?thesis
    using processWatchImage_alpha[OF assms(4,6), of fl] by (simp add: avg_def thr_def)
qed

section \<open>The pixels that end transparent\<close>

lemma foreground_survives:
  assumes "length data = 4 * (w * h)" "p < w * h"
    and "buildMask fl data w h (avgBackground fl data w h) (pipelineThreshold fl data w h) ! p = 1"
  shows "processWatchImage fl data w h ! (4 * p + 3) = data ! (4 * p + 3)"
proof -
  define avg where "avg = avgBackground fl data w h"
  define thr where "thr = pipelineThreshold fl data w h"
  define m1 where "m1 = buildMask fl data w h avg thr"
  define m2 where "m2 = refineMask fl data w h avg thr m1"
  have l1: "length m1 = w * h" by (simp add: m1_def buildMask_length)
  have l2: "length m2 = w * h" by (simp add: m2_def refineMask_length l1)
  have b: "m1 ! p = 1" using assms(3) by (simp add: m1_def avg_def thr_def)
  have r: "m2 ! p = 1" unfolding m2_def refineMask_nth[OF l1 assms(2)] using b by simp
  have "improvedWatchMask fl data w h avg thr ! p = 1"
    unfolding improvedWatchMask_def m1_def[symmetric] m2_def[symmetric]
      floodFillHoles_nth[OF l2 assms(2)] using r by simp
  then show ?thesis
    using processWatchImage_alpha[OF assms(1,2)] by (simp add: avg_def thr_def)
qed


lemma buildMask_exceeds:
  assumes "keepsSign fl" "length data = 4 * (w * h)" "i < w * h"
  shows "buildMask fl data w h (avgBackground fl data w h) (pipelineThreshold fl data w h) ! i =
           (if exceeds fl data w h i then 1 else 0)"
proof (cases "isInterior w h i")
  case False
  have "buildMask fl data w h (avgBackground fl data w h) (pipelineThreshold fl data w h) ! i = 0"
    unfolding pipelineThreshold_def by (rule buildMask_not_interior[OF assms(1,3) False])
  then show ?thesis using False by (simp add: exceeds_def)
next
  case True
  then have xy: "1 \<le> i mod w" "i mod w < w - 1" "1 \<le> i div w" "i div w < h - 1"
    by (simp_all add: isInterior_def)
  have e: "(i div w) * w + i mod w = i" by simp
  from buildMask_interior[OF assms(2) xy, of fl "avgBackground fl data w h" "pipelineThreshold fl data w h"]
  show ?thesis
    unfolding e using True by (simp add: exceeds_def combined_def combinedMetric_def Let_def)
qed

lemma refineMask_calm:
  assumes "keepsSign fl" "length data = 4 * (w * h)" "i < w * h"
  shows "refineMask fl data w h (avgBackground fl data w h) (pipelineThreshold fl data w h)
           (buildMask fl data w h (avgBackground fl data w h) (pipelineThreshold fl data w h)) ! i =
           (if calm fl data w h i then 0 else 1)"
proof -
  define avg where "avg = avgBackground fl data w h"
  define thr where "thr = pipelineThreshold fl data w h"
  define m1 where "m1 = buildMask fl data w h avg thr"
  have l1: "length m1 = w * h" by (simp add: m1_def buildMask_length)
  have b: "m1 ! n = (if exceeds fl data w h n then 1 else 0)" if "n < w * h" for n
    unfolding m1_def avg_def thr_def by (rule buildMask_exceeds[OF assms(1,2) that])
  have nb: "(\<exists>n. adjacent8 w h i n \<and> m1 ! n = 1) \<longleftrightarrow> (\<exists>n. adjacent8 w h i n \<and> exceeds fl data w h n)"
  proof -
    have "m1 ! n = 1 \<longleftrightarrow> exceeds fl data w h n" if "adjacent8 w h i n" for n
    proof -
      have "n < w * h" using that by (simp add: adjacent8_def)
      from b[OF this] show ?thesis by simp
    qed
    then show ?thesis by blast
  qed
  have "refineMask fl data w h avg thr m1 ! i = (if calm fl data w h i then 0 else 1)"
  proof (cases "exceeds fl data w h i")
    case True
    then show ?thesis
      unfolding refineMask_nth[OF l1 assms(3)] using b[OF assms(3)] by (simp add: calm_def)
  next
    case False
    then have z: "m1 ! i = 0" using b[OF assms(3)] by simp
    show ?thesis
    proof (cases "isInterior w h i")
      case True
      show ?thesis
        unfolding refineMask_nth[OF l1 assms(3)] promotable_spec[OF assms(2,3)]
          hasNeighbor_interior[OF True z] nb
        using True False z by (simp add: calm_def promoted_def avg_def thr_def)
    next
      case ni: False
      then show ?thesis
        unfolding refineMask_nth[OF l1 assms(3)] using False z by (simp add: calm_def promoted_def)
    qed
  qed
  then show ?thesis by (simp add: m1_def avg_def thr_def)
qed

lemma reachable_ringConnected:
  assumes "keepsSign fl" "length data = 4 * (w * h)"
  shows "reachable (refineMask fl data w h (avgBackground fl data w h) (pipelineThreshold fl data w h)
           (buildMask fl data w h (avgBackground fl data w h) (pipelineThreshold fl data w h))) w h
         = ringConnected fl data w h"
proof -
  define m2 where "m2 = refineMask fl data w h (avgBackground fl data w h) (pipelineThreshold fl data w h)
           (buildMask fl data w h (avgBackground fl data w h) (pipelineThreshold fl data w h))"
  have z: "m2 ! n = 0 \<longleftrightarrow> calm fl data w h n" if "n < w * h" for n
    unfolding m2_def refineMask_calm[OF assms that] by simp
  have 1: "p \<in> ringConnected fl data w h" if "p \<in> reachable m2 w h" for p
    using that
  proof (induction rule: reachable.induct)
    case (border p)
    then show ?case by (rule ringConnected.ring)
  next
    case (step p n)
    have "n < w * h" using step.hyps(2) by (simp add: adjacent4_def)
    then have "calm fl data w h n" using step.hyps(3) z by simp
    with step.IH step.hyps(2) show ?case by (rule ringConnected.chain)
  qed
  have 2: "p \<in> reachable m2 w h" if "p \<in> ringConnected fl data w h" for p
    using that
  proof (induction rule: ringConnected.induct)
    case (ring p)
    then show ?case by (rule reachable.border)
  next
    case (chain p n)
    have "n < w * h" using chain.hyps(2) by (simp add: adjacent4_def)
    then have "m2 ! n = 0" using chain.hyps(3) z by simp
    with chain.IH chain.hyps(2) show ?case by (rule reachable.step)
  qed
  show ?thesis unfolding m2_def[symmetric] using 1 2 by blast
qed

lemma alpha_ringConnected:
  assumes "keepsSign fl" "length data = 4 * (w * h)" "p < w * h"
  shows "processWatchImage fl data w h ! (4 * p + 3) =
           (if p \<in> ringConnected fl data w h then 0 else data ! (4 * p + 3))"
proof -
  define avg where "avg = avgBackground fl data w h"
  define thr where "thr = pipelineThreshold fl data w h"
  define m1 where "m1 = buildMask fl data w h avg thr"
  define m2 where "m2 = refineMask fl data w h avg thr m1"
  have l1: "length m1 = w * h" by (simp add: m1_def buildMask_length)
  have l2: "length m2 = w * h" by (simp add: m2_def refineMask_length l1)
  have re: "reachable m2 w h = ringConnected fl data w h"
    unfolding m2_def m1_def avg_def thr_def by (rule reachable_ringConnected[OF assms(1,2)])
  have lab: "m2 ! p = (if calm fl data w h p then 0 else 1)"
    unfolding m2_def m1_def avg_def thr_def by (rule refineMask_calm[OF assms])
  have ringz: "m2 ! p = 0" if "p \<in> ringConnected fl data w h"
    using that
  proof (cases rule: ringConnected.cases)
    case ring
    then have "\<not> isInterior w h p" by (rule onBorder_not_interior)
    then have "calm fl data w h p" by (simp add: calm_def exceeds_def promoted_def)
    then show ?thesis using lab by simp
  next
    case (chain q)
    then show ?thesis using lab by simp
  qed
  have "improvedWatchMask fl data w h avg thr ! p = (if p \<in> ringConnected fl data w h then 0 else 1)"
    unfolding improvedWatchMask_def m1_def[symmetric] m2_def[symmetric]
      floodFillHoles_nth[OF l2 assms(3)] re
    using ringz lab by auto
  then show ?thesis
    using processWatchImage_alpha[OF assms(2,3), of fl] by (simp add: avg_def thr_def)
qed

section \<open>The pipeline on a black image with a red edge\<close>

text \<open>
  The 3 x 10 image \<open>cex310\<close>, for every accurate rounding: the BackgroundColor is
  \<open>(20, 0, 0)\<close>, the variance \<open>3600\<close> and the threshold within \<open>1 / 10\<close> of
  \<open>74\<close>; a black pixel is at a distance between \<open>10.8\<close> and \<open>11.1\<close> from the
  BackgroundColor; at the pixel \<open>(1, 4)\<close> the Sobel magnitude is above \<open>255\<close>, and
  at the pixel \<open>(1, 7)\<close> it is at most \<open>1 / 5\<close>.
\<close>

lemma cex_avg_fl:
  assumes "accurate fl N" "216000 \<le> N"
  shows "avgBackground fl cex310 3 10 = \<lparr>r = Some 20, g = Some 0, b = Some 0\<rparr>"
  by (simp add: avgBackground_def collectSamples_def sampleCoords_def borderWidth_def addSample_def
      calculateAverageColor_def get_def cex310_def fnum_simps Let_def upt_rec
      accurateD(1)[OF assms(1)] fl_numeral[OF assms])

lemma cex_var_fl:
  assumes "accurate fl N" "216000 \<le> N"
  shows "calculateColorVariance fl (collectSamples cex310 3 10) \<lparr>r = Some 20, g = Some 0, b = Some 0\<rparr> = Some 3600"
  by (simp add: collectSamples_def sampleCoords_def borderWidth_def addSample_def
      calculateColorVariance_def get_def cex310_def fnum_simps Let_def upt_rec
      accurateD(1)[OF assms(1)] fl_numeral[OF assms])

lemma cex_thr_fl:
  assumes "accurate fl N" "216000 \<le> N"
  shows "\<exists>t. pipelineThreshold fl cex310 3 10 = Some t \<and> 739 / 10 \<le> t \<and> t \<le> 741 / 10"
proof -
  have s: "sqrt 3600 = (60 :: real)" by (rule sqrt_sq) simp_all
  have f60: "fl 60 = 60" by (rule fl_numeral(1)[OF assms]) simp
  have a: "\<bar>fl (7 / 10) - 7 / 10\<bar> \<le> 1 / 1000" by (rule fl_near[OF assms(1)]) simp
  then have a': "\<bar>60 * fl (7 / 10)\<bar> \<le> 1000" by linarith
  have b: "\<bar>fl (60 * fl (7 / 10)) - 60 * fl (7 / 10)\<bar> \<le> 1 / 1000" by (rule fl_near[OF assms(1) a'])
  have c': "\<bar>32 + fl (60 * fl (7 / 10))\<bar> \<le> 1000" using a b by linarith
  have c: "\<bar>fl (32 + fl (60 * fl (7 / 10))) - (32 + fl (60 * fl (7 / 10)))\<bar> \<le> 1 / 1000"
    by (rule fl_near[OF assms(1) c'])
  have "pipelineThreshold fl cex310 3 10 = Some (fl (32 + fl (60 * fl (7 / 10))))"
    by (simp add: pipelineThreshold_def cex_avg_fl[OF assms] cex_var_fl[OF assms] adaptiveThreshold_def
        fnum_simps s f60)
  moreover have "739 / 10 \<le> fl (32 + fl (60 * fl (7 / 10)))" "fl (32 + fl (60 * fl (7 / 10))) \<le> 741 / 10"
    using a b c by linarith+
  ultimately show ?thesis by blast
qed

lemma black_distance_fl:
  assumes "accurate fl N" "216000 \<le> N"
    and "chanR data p = 0" "chanG data p = 0" "chanB data p = 0"
  shows "\<exists>c. colorDistance fl data \<lparr>r = Some 20, g = Some 0, b = Some 0\<rparr> p = Some c \<and>
             108 / 10 \<le> c \<and> c \<le> 111 / 10"
proof -
  note z = accurateD(1)[OF assms(1)]
  have ng: "\<not> goldLike fl data p" by (simp add: goldLike_def assms(3))
  have m20: "fl (- 20) = - 20" by (rule fl_numeral(2)[OF assms(1,2)]) simp
  have f400: "fl 400 = 400" by (rule fl_numeral(1)[OF assms(1,2)]) simp
  have a: "\<bar>fl (3 / 10) - 3 / 10\<bar> \<le> 1 / 500000"
  proof -
    have "\<bar>fl (3 / 10) - 3 / 10\<bar> \<le> (\<bar>3 / 10 :: real\<bar> + 1) / 2 ^ 20" by (rule accurateD(5)[OF assms(1)])
    also have "\<dots> \<le> 1 / 500000" by simp
    finally show ?thesis .
  qed
  define A where "A = fl (400 * fl (3 / 10))"
  have a': "\<bar>400 * fl (3 / 10)\<bar> \<le> 1000" using a by linarith
  have b: "\<bar>A - 400 * fl (3 / 10)\<bar> \<le> 1 / 1000" unfolding A_def by (rule fl_near[OF assms(1) a'])
  have Ab: "1199 / 10 \<le> A" "A \<le> 1201 / 10" using a b by linarith+
  define S1 where "S1 = fl A"
  have "\<bar>S1 - A\<bar> \<le> 1 / 1000" unfolding S1_def by (rule fl_near[OF assms(1)]) (use Ab in simp)
  then have S1b: "1198 / 10 \<le> S1" "S1 \<le> 1202 / 10" using Ab by linarith+
  define S2 where "S2 = fl S1"
  have "\<bar>S2 - S1\<bar> \<le> 1 / 1000" unfolding S2_def by (rule fl_near[OF assms(1)]) (use S1b in simp)
  then have S2b: "119 \<le> S2" "S2 \<le> 121" using S1b by linarith+
  have q1: "109 / 10 \<le> sqrt S2"
    by (rule real_le_rsqrt) (use S2b in \<open>simp add: power2_eq_square\<close>)
  have q2: "sqrt S2 \<le> 11"
    by (rule real_le_lsqrt) (use S2b in \<open>simp_all add: power2_eq_square\<close>)
  have "\<bar>fl (sqrt S2) - sqrt S2\<bar> \<le> 1 / 1000" by (rule fl_near[OF assms(1)]) (use q1 q2 in simp)
  then have cb: "108 / 10 \<le> fl (sqrt S2)" "fl (sqrt S2) \<le> 111 / 10" using q1 q2 by linarith+
  have "colorDistance fl data \<lparr>r = Some 20, g = Some 0, b = Some 0\<rparr> p = Some (fl (sqrt S2))"
    using S2b(1)
    by (simp add: colorDistance_def weights_def ng assms(3,4,5) Let_def fnum_simps z m20 f400
        A_def[symmetric] S1_def[symmetric] S2_def[symmetric])
  then show ?thesis using cb by blast
qed

lemma cex_black:
  "chanR cex310 13 = 0" "chanG cex310 13 = 0" "chanB cex310 13 = 0"
  "chanR cex310 22 = 0" "chanG cex310 22 = 0" "chanB cex310 22 = 0"
  by (simp_all add: chanR_def chanG_def chanB_def cex310_def)

lemma cex_sobelG:
  "sobelGx cex310 3 1 4 = - (800 / 3)" "sobelGy cex310 3 1 4 = 0"
  "sobelGx cex310 3 1 7 = 0" "sobelGy cex310 3 1 7 = 0"
  by (simp_all add: sobelGx_def sobelGy_def exactIntensity_def chanR_def chanG_def chanB_def cex310_def)

lemma cex_thr: "pipelineThreshold id cex310 3 10 = Some 74"
proof -
  have "sqrt 3600 = (60 :: real)" by (rule sqrt_sq) simp_all
  then show ?thesis
    by (simp add: pipelineThreshold_def cex_avg_fl[OF accurate_id le_refl]
        cex_var_fl[OF accurate_id le_refl] adaptiveThreshold_def jsnum_simps fnum_id)
qed

lemma cex_cd: "exactColorDistance cex310 \<lparr>r = Some 20, g = Some 0, b = Some 0\<rparr> 13 = Some (sqrt 120)"
  by (simp add: exactColorDistance_def exactWeights_def goldLike_def chanR_def chanG_def chanB_def
      cex310_def)

lemma cex_in_band: "(1, 4) \<in> set (sampleCoords 3 10)"
  unfolding sampleCoords_set by (auto simp: borderWidth_def intro!: exI[of _ 1] exI[of _ 4])

lemma cex_built_fl:
  assumes "accurate fl N" "216000 \<le> N"
  shows "buildMask fl cex310 3 10 (avgBackground fl cex310 3 10) (pipelineThreshold fl cex310 3 10) ! 13 = 1"
proof -
  have N: "765 \<le> N" using assms(2) by simp
  have len: "length cex310 = 4 * (3 * 10)" by (simp add: cex310_def)
  obtain t where t: "pipelineThreshold fl cex310 3 10 = Some t" "739 / 10 \<le> t" "t \<le> 741 / 10"
    using cex_thr_fl[OF assms] by blast
  obtain c where c: "colorDistance fl cex310 \<lparr>r = Some 20, g = Some 0, b = Some 0\<rparr> 13 = Some c"
    "108 / 10 \<le> c" "c \<le> 111 / 10"
    using black_distance_fl[OF assms cex_black(1,2,3)] by blast
  have gx: "sobelSum fl sobelX cex310 3 1 4 \<le> - 266" "- 268 \<le> sobelSum fl sobelX cex310 3 1 4"
    using sobelSum_exact(1)[OF assms(1) N, of cex310 3 1 4] unfolding cex_sobelG by linarith+
  have gy: "\<bar>sobelSum fl sobelY cex310 3 1 4\<bar> \<le> 7 / 100"
    using sobelSum_exact(2)[OF assms(1) N, of cex310 3 1 4] unfolding cex_sobelG by simp
  obtain M where M: "sobelMagnitude fl cex310 3 1 4 = Some M" "255 \<le> M"
    using magnitude_large[OF assms(1) gx gy] unfolding sobelMagnitude_def Let_def by blast
  obtain m where m: "combinedMetric fl (Some c) (Some M) = Some m" "79 \<le> m"
    using metric_large[OF assms M(2), of c] c(2,3) by auto
  have e13: "(4 :: nat) * 3 + 1 = 13" by simp
  have "buildMask fl cex310 3 10 (avgBackground fl cex310 3 10) (Some t) ! (4 * 3 + 1) =
     (if ngt (combinedMetric fl (colorDistance fl cex310 (avgBackground fl cex310 3 10) (4 * 3 + 1))
                (sobelMagnitude fl cex310 3 1 4)) (Some t) then 1 else 0)"
    by (rule buildMask_interior[OF len]) simp_all
  also have "\<dots> = 1"
    unfolding e13 cex_avg_fl[OF assms] c(1) M(1) m(1) jsnum_simps using m(2) t(3) by simp
  finally show ?thesis unfolding e13 t(1) .
qed

lemma cex_alpha_fl:
  assumes "accurate fl N" "216000 \<le> N"
  shows "processWatchImage fl cex310 3 10 ! (4 * 13 + 3) = 255"
proof -
  have len: "length cex310 = 4 * (3 * 10)" by (simp add: cex310_def)
  have "processWatchImage fl cex310 3 10 ! (4 * 13 + 3) = cex310 ! (4 * 13 + 3)"
    by (rule foreground_survives[OF len _ cex_built_fl[OF assms]]) simp
  then show ?thesis by (simp add: cex310_def)
qed

lemma combined_metric:
  "combined fl data w h p =
     combinedMetric fl (colorDistance fl data (avgBackground fl data w h) p)
       (sobelMagnitude fl data w (p mod w) (p div w))"
  by (simp add: combined_def combinedMetric_def Let_def)

lemma cex_calm_fl:
  assumes "accurate fl N" "216000 \<le> N"
  shows "calm fl cex310 3 10 22"
proof -
  have N: "765 \<le> N" using assms(2) by simp
  note z = accurateD(1)[OF assms(1)]
  obtain t where t: "pipelineThreshold fl cex310 3 10 = Some t" "739 / 10 \<le> t" "t \<le> 741 / 10"
    using cex_thr_fl[OF assms] by blast
  obtain c where c: "colorDistance fl cex310 \<lparr>r = Some 20, g = Some 0, b = Some 0\<rparr> 22 = Some c"
    "108 / 10 \<le> c" "c \<le> 111 / 10"
    using black_distance_fl[OF assms cex_black(4,5,6)] by blast
  have gx: "\<bar>sobelSum fl sobelX cex310 3 1 7\<bar> \<le> 7 / 100"
    using sobelSum_exact(1)[OF assms(1) N, of cex310 3 1 7] unfolding cex_sobelG by simp
  have gy: "\<bar>sobelSum fl sobelY cex310 3 1 7\<bar> \<le> 7 / 100"
    using sobelSum_exact(2)[OF assms(1) N, of cex310 3 1 7] unfolding cex_sobelG by simp
  obtain E where E: "sobelMagnitude fl cex310 3 1 7 = Some E" "0 \<le> E" "E \<le> 1 / 5"
    using magnitude_small[OF assms(1) gx gy] unfolding sobelMagnitude_def Let_def by blast
  obtain m where m: "combinedMetric fl (Some c) (Some E) = Some m" "m \<le> c + 1"
    using metric_calm[OF assms(1) E(2,3), of c] c(2,3) by auto
  have dm: "(22 :: nat) mod 3 = 1" "(22 :: nat) div 3 = 7" by simp_all
  have "combined fl cex310 3 10 22 = Some m"
    unfolding combined_metric dm cex_avg_fl[OF assms] c(1) E(1) m(1) ..
  then have ne: "\<not> exceeds fl cex310 3 10 22"
    using m(2) c(3) t(2) by (simp add: exceeds_def t(1) jsnum_simps)
  have ng: "\<not> goldLike fl cex310 22" by (simp add: goldLike_def cex_black)
  have m20: "fl (- 20) = - 20" by (rule fl_numeral(2)[OF assms]) simp
  have "\<bar>fl (t / 2) - t / 2\<bar> \<le> 1 / 1000" by (rule fl_near[OF assms(1)]) (use t in simp)
  then have half: "36 \<le> fl (t / 2)" using t(2) by linarith
  have nd: "\<not> deviates fl cex310 (avgBackground fl cex310 3 10) (pipelineThreshold fl cex310 3 10) 22"
    using half by (simp add: deviates_def cex_avg_fl[OF assms] t(1) cex_black fnum_simps jsnum_simps z m20)
  show ?thesis using ne ng nd by (simp add: calm_def promoted_def)
qed

lemma cex_ringConnected_fl:
  assumes "accurate fl N" "216000 \<le> N"
  shows "22 \<in> ringConnected fl cex310 3 10"
proof -
  have "onBorder 3 10 21" by (simp add: onBorder_def)
  then have "21 \<in> ringConnected fl cex310 3 10" by (rule ringConnected.ring)
  moreover have "adjacent4 3 10 21 22" by (simp add: adjacent4_def)
  ultimately show ?thesis using cex_calm_fl[OF assms] by (rule ringConnected.chain)
qed

section \<open>Claims\<close>

text \<open>
  C10 (Alpha Compositor frame property): for a buffer of four bytes per mask entry, the
  compositing loop leaves the alpha byte of pixel \<open>p\<close> at \<open>0\<close> when the mask
  label of \<open>p\<close> is \<open>0\<close> and unchanged otherwise, leaves the R, G and B bytes of
  every pixel unchanged, and returns a buffer of the same length (the input buffer,
  updated).
\<close>

theorem applyMask_frame:
  assumes "length data = 4 * length msk" and "p < length msk"
  shows "applyMask data msk ! (4 * p + 3) = (if msk ! p = 0 then 0 else data ! (4 * p + 3)) \<and>
         applyMask data msk ! (4 * p) = data ! (4 * p) \<and>
         applyMask data msk ! (4 * p + 1) = data ! (4 * p + 1) \<and>
         applyMask data msk ! (4 * p + 2) = data ! (4 * p + 2) \<and>
         length (applyMask data msk) = length data"
proof -
  have d: "(4 * p + 3) div 4 = p" "(4 * p + 3) mod 4 = 3" "(4 * p) mod 4 \<noteq> 3"
    "(4 * p + 1) mod 4 \<noteq> 3" "(4 * p + 2) mod 4 \<noteq> 3" by presburger+
  have lt: "4 * p + 3 < length data" "4 * p < length data" "4 * p + 1 < length data"
    "4 * p + 2 < length data" using assms by simp_all
  have "applyMask data msk ! (4 * p + 3) = (if msk ! p = 0 then 0 else data ! (4 * p + 3))"
    unfolding applyMask_nth[OF lt(1)] d using assms(2) by simp
  moreover have "applyMask data msk ! (4 * p) = data ! (4 * p)"
    unfolding applyMask_nth[OF lt(2)] using d(3) by simp
  moreover have "applyMask data msk ! (4 * p + 1) = data ! (4 * p + 1)"
    unfolding applyMask_nth[OF lt(3)] using d(4) by simp
  moreover have "applyMask data msk ! (4 * p + 2) = data ! (4 * p + 2)"
    unfolding applyMask_nth[OF lt(4)] using d(5) by simp
  ultimately show ?thesis by (simp add: applyMask_length)
qed

theorem applyMask_frame_witness:
  "length [10, 20, 30, 255, 40, 50, 60, 200 :: 8 word] = 4 * length [0, 1 :: nat] \<and>
   (0 :: nat) < length [0, 1 :: nat] \<and>
   applyMask [10, 20, 30, 255, 40, 50, 60, 200] [0, 1] ! 3 = 0 \<and>
   applyMask [10, 20, 30, 255, 40, 50, 60, 200] [0, 1] ! 0 = 10 \<and>
   applyMask [10, 20, 30, 255, 40, 50, 60, 200] [0, 1] ! 1 = 20 \<and>
   applyMask [10, 20, 30, 255, 40, 50, 60, 200] [0, 1] ! 2 = 30 \<and>
   length (applyMask [10, 20, 30, 255, 40, 50, 60, 200] [0, 1]) = 8"
  using applyMask_frame [of "[10, 20, 30, 255, 40, 50, 60, 200]" "[0, 1]" 0]
  by (simp add: applyMask_def applyMaskStep_def upt_rec)


text \<open>
  C1 (Hole Filler contract), as the code has it: the flood fill starts from every
  pixel of the outermost ring, whatever its label. The pixels it marks in
  \<open>isBackground\<close> are exactly the ring pixels and the pixels labeled \<open>0\<close> that a
  chain of 4-adjacent pixels labeled \<open>0\<close> joins to a ring pixel; afterwards a pixel
  is relabeled \<open>1\<close> exactly when it was labeled \<open>0\<close> and not marked, and every
  other pixel keeps its label.
\<close>

theorem floodFillHoles_reachable:
  assumes "length msk = w * h"
  shows "snd (bfs msk w h (seeds w h, set (seeds w h), set (seeds w h))) \<inter> {..<w * h}
           = reachable msk w h \<and>
         floodFillHoles msk w h =
           map (\<lambda>i. if msk ! i = 0 \<and> i \<notin> reachable msk w h then 1 else msk ! i) [0..<w * h]"
  using assms by (simp add: bfs_marks floodFillHoles_eq)

theorem floodFillHoles_reachable_witness:
  "length [0,0,0,0,0, 0,1,1,1,0, 0,1,0,1,0, 0,1,1,1,0, 0,0,0,0,0 :: nat] = 5 * 5 \<and>
   floodFillHoles [0,0,0,0,0, 0,1,1,1,0, 0,1,0,1,0, 0,1,1,1,0, 0,0,0,0,0] 5 5 =
     [0,0,0,0,0, 0,1,1,1,0, 0,1,1,1,0, 0,1,1,1,0, 0,0,0,0,0]"
proof -
  have len: "length [0,0,0,0,0, 0,1,1,1,0, 0,1,0,1,0, 0,1,1,1,0, 0,0,0,0,0 :: nat] = 5 * 5"
    by simp
  have run: "floodFillHoles [0,0,0,0,0, 0,1,1,1,0, 0,1,0,1,0, 0,1,1,1,0, 0,0,0,0,0] 5 5 =
     [0,0,0,0,0, 0,1,1,1,0, 0,1,1,1,0, 0,1,1,1,0, 0,0,0,0,0]"
    by (simp add: floodFillHoles_def seeds_def upt_rec directions_def visitNeighbor_def Let_def)
  show ?thesis
    using floodFillHoles_reachable [OF len] by (simp only: len run simp_thms)
qed

text \<open>
  C1 as the claim words it takes only the ring pixels labeled background as seeds. On
  the 3 x 3 mask whose ring is all foreground and whose centre is background, no pixel
  is such a seed, so the centre is not reached and the claim has it relabeled
  foreground; the code seeds the ring pixels all the same, reaches the centre from
  them and leaves it background.
\<close>

theorem floodFillHoles_background_seeds_counterexample:
  "[1, 1, 1, 1, 0, 1, 1, 1, 1 :: nat] ! 4 = 0 \<and>
   4 \<notin> reachableFromBackgroundBorder [1, 1, 1, 1, 0, 1, 1, 1, 1] 3 3 \<and>
   floodFillHoles [1, 1, 1, 1, 0, 1, 1, 1, 1] 3 3 ! 4 = 0"
proof -
  have "onBorder 3 3 1" by (simp add: onBorder_def)
  then have "1 \<in> reachable [1, 1, 1, 1, 0, 1, 1, 1, 1] 3 3" by (rule reachable.border)
  moreover have "adjacent4 3 3 1 4" by (simp add: adjacent4_def)
  moreover have "[1, 1, 1, 1, 0, 1, 1, 1, 1 :: nat] ! 4 = 0" by simp
  ultimately have "4 \<in> reachable [1, 1, 1, 1, 0, 1, 1, 1, 1] 3 3" by (rule reachable.step)
  then have "floodFillHoles [1, 1, 1, 1, 0, 1, 1, 1, 1] 3 3 ! 4 = 0"
    by (simp add: floodFillHoles_nth)
  then show ?thesis using spec_reach_empty by auto
qed


text \<open>
  C7 (idempotence of hole filling): applying the Hole Filler to its own result gives
  that result again.
\<close>

theorem floodFillHoles_idempotent:
  assumes "length msk = w * h"
  shows "floodFillHoles (floodFillHoles msk w h) w h = floodFillHoles msk w h"
proof -
  define m' where "m' = floodFillHoles msk w h"
  have len: "length m' = w * h" by (simp add: m'_def floodFillHoles_length assms)
  have "(if m' ! i = 0 \<and> i \<notin> reachable m' w h then 1 else m' ! i) = m' ! i" if "i < w * h" for i
  proof (cases "m' ! i = 0")
    case True
    then have "msk ! i = 0 \<and> i \<in> reachable msk w h"
      using that by (auto simp: m'_def floodFillHoles_nth[OF assms] split: if_splits)
    then have "i \<in> reachable m' w h"
      unfolding m'_def using reachable_floodFillHoles[OF assms] by blast
    then show ?thesis by simp
  next
    case False
    then show ?thesis by simp
  qed
  then have "map (\<lambda>i. if m' ! i = 0 \<and> i \<notin> reachable m' w h then 1 else m' ! i) [0..<w * h]
      = map (\<lambda>i. m' ! i) [0..<w * h]" by simp
  also have "\<dots> = m'" using len by (metis map_nth)
  finally have "floodFillHoles m' w h = m'"
    unfolding floodFillHoles_eq[OF len] .
  then show ?thesis by (simp only: m'_def)
qed


theorem floodFillHoles_idempotent_witness:
  "length [0,0,0,0,0, 0,1,1,1,0, 0,1,0,1,0, 0,1,1,1,0, 0,0,0,0,0 :: nat] = 5 * 5 \<and>
   floodFillHoles (floodFillHoles [0,0,0,0,0, 0,1,1,1,0, 0,1,0,1,0, 0,1,1,1,0, 0,0,0,0,0] 5 5) 5 5 =
     [0,0,0,0,0, 0,1,1,1,0, 0,1,1,1,0, 0,1,1,1,0, 0,0,0,0,0]"
proof -
  have len: "length [0,0,0,0,0, 0,1,1,1,0, 0,1,0,1,0, 0,1,1,1,0, 0,0,0,0,0 :: nat] = 5 * 5"
    by simp
  have run: "floodFillHoles [0,0,0,0,0, 0,1,1,1,0, 0,1,0,1,0, 0,1,1,1,0, 0,0,0,0,0] 5 5 =
     [0,0,0,0,0, 0,1,1,1,0, 0,1,1,1,0, 0,1,1,1,0, 0,0,0,0,0]"
    by (simp add: floodFillHoles_def seeds_def upt_rec directions_def visitNeighbor_def Let_def)
  show ?thesis
    using floodFillHoles_idempotent [OF len] by (simp only: len run simp_thms)
qed


text \<open>
  C4 (Mask Refiner semantics): the dilation loop reads only the mask it was given and
  writes the copy, so visiting the interior pixels in any order \<open>order\<close> gives the
  result of the row-major pass; and the label of a pixel after the pass is \<open>1\<close>
  exactly when it was \<open>1\<close> before, or the pixel is interior, was labeled \<open>0\<close>,
  has an 8-neighbour that was labeled \<open>1\<close>, and is gold-like or has a channel that
  differs from the BackgroundColor by more than half the threshold. This holds for
  every rounding \<open>fl\<close>, so for the arithmetic of doubles and for exact arithmetic
  alike.
\<close>

theorem refineMask_semantics:
  assumes "length data = 4 * (w * h)" "length msk = w * h"
    and "set order = set (interior w h)" "i < w * h"
  shows "dilate fl data w avgBg threshold msk order = refineMask fl data w h avgBg threshold msk \<and>
     (refineMask fl data w h avgBg threshold msk ! i = 1 \<longleftrightarrow>
        msk ! i = 1 \<or>
        (isInterior w h i \<and> msk ! i = 0 \<and> (\<exists>n. adjacent8 w h i n \<and> msk ! n = 1) \<and>
         (goldLike fl data i \<or> deviates fl data avgBg threshold i)))"
proof
  show "dilate fl data w avgBg threshold msk order = refineMask fl data w h avgBg threshold msk"
    by (rule dilate_order[OF assms(2,3)])
next
  show "refineMask fl data w h avgBg threshold msk ! i = 1 \<longleftrightarrow>
        msk ! i = 1 \<or>
        (isInterior w h i \<and> msk ! i = 0 \<and> (\<exists>n. adjacent8 w h i n \<and> msk ! n = 1) \<and>
         (goldLike fl data i \<or> deviates fl data avgBg threshold i))"
  proof (cases "isInterior w h i \<and> msk ! i = 0")
    case True
    then show ?thesis
      unfolding refineMask_nth[OF assms(2,4)] promotable_spec[OF assms(1,4)]
      using hasNeighbor_interior[of w h i msk] by auto
  next
    case False
    then show ?thesis
      unfolding refineMask_nth[OF assms(2,4)] by auto
  qed
qed

theorem refineMask_semantics_witness:
  "length img43 = 4 * (4 * 3) \<and> length msk43 = 4 * 3 \<and>
   set [(2, 1), (1, 1)] = set (interior 4 3) \<and> (6 :: nat) < 4 * 3 \<and>
   dilate id img43 4 grey (Some 32) msk43 [(2, 1), (1, 1)] = [0,0,0,0, 0,1,1,0, 0,0,0,0] \<and>
   refineMask id img43 4 3 grey (Some 32) msk43 ! 6 = 1 \<and>
   dilate binary64 img43 4 grey (Some 32) msk43 [(2, 1), (1, 1)] = [0,0,0,0, 0,1,1,0, 0,0,0,0] \<and>
   refineMask binary64 img43 4 3 grey (Some 32) msk43 ! 6 = 1"
proof -
  have h1: "length img43 = 4 * (4 * 3)" by (simp add: img43_def)
  have h2: "length msk43 = 4 * 3" by (simp add: msk43_def)
  have h3: "set [(2, 1), (1, 1)] = set (interior 4 3)" by (auto simp: interior_def upt_rec)
  have h4: "(6 :: nat) < 4 * 3" by simp
  have run: "refineMask id img43 4 3 grey (Some 32) msk43 = [0,0,0,0, 0,1,1,0, 0,0,0,0]"
    by (simp add: refineMask_def dilate_def interior_def dilateStep_def hasNeighbor_def
        kernelOffsets_def upt_rec promotable_def isGoldLike_def get_def img43_def grey_def msk43_def
        fnum_id ngt_def nadd_def nsub_def nabs_def ndiv_def lift2_def Let_def)
  have run64: "refineMask binary64 img43 4 3 grey (Some 32) msk43 = [0,0,0,0, 0,1,1,0, 0,0,0,0]"
    by (simp add: refineMask_def dilate_def interior_def dilateStep_def hasNeighbor_def
        kernelOffsets_def upt_rec promotable_def isGoldLike_def get_def img43_def grey_def msk43_def
        fnum_simps jsnum_simps binary64_numeral binary64_zero Let_def)
  have at6: "[0,0,0,0, 0,1,1,0, 0,0,0,0 :: nat] ! 6 = 1" by simp
  from refineMask_semantics [OF h1 h2 h3 h4, where fl = id and avgBg = grey and threshold = "Some 32"]
  have d: "dilate id img43 4 grey (Some 32) msk43 [(2, 1), (1, 1)] = [0,0,0,0, 0,1,1,0, 0,0,0,0]"
    by (simp only: run)
  from refineMask_semantics [OF h1 h2 h3 h4, where fl = binary64 and avgBg = grey and threshold = "Some 32"]
  have d64: "dilate binary64 img43 4 grey (Some 32) msk43 [(2, 1), (1, 1)] = [0,0,0,0, 0,1,1,0, 0,0,0,0]"
    by (simp only: run64)
  show ?thesis by (simp only: h1 h2 h3 h4 run run64 d d64 at6 simp_thms)
qed

text \<open>
  C6 (dilation monotonicity): the pixels labeled foreground before the refiner pass are
  labeled foreground after it, and the pass keeps the length of the mask, for every
  rounding \<open>fl\<close>.
\<close>

theorem refineMask_monotone:
  assumes "length msk = w * h"
  shows "{i. i < w * h \<and> msk ! i = 1} \<subseteq> {i. i < w * h \<and> refineMask fl data w h avgBg threshold msk ! i = 1} \<and>
         length (refineMask fl data w h avgBg threshold msk) = length msk"
  using assms by (auto simp: refineMask_nth refineMask_length)


theorem refineMask_monotone_witness:
  "length msk43 = 4 * 3 \<and>
   {i. i < 4 * 3 \<and> msk43 ! i = 1} \<subseteq> {i. i < 4 * 3 \<and> refineMask id img43 4 3 grey (Some 32) msk43 ! i = 1} \<and>
   length (refineMask id img43 4 3 grey (Some 32) msk43) = length msk43"
proof -
  have h: "length msk43 = 4 * 3" by (simp add: msk43_def)
  from refineMask_monotone [OF h] h show ?thesis by blast
qed


text \<open>
  C3 (Mask Builder classification rule): at an interior pixel \<open>(x, y)\<close> the Mask
  Builder writes the label \<open>1\<close> if the weighted colour distance to the
  BackgroundColor plus \<open>min(255, Sobel magnitude) / 255 * 80\<close> is strictly greater
  than \<open>32 + sqrt(variance) * 0.7\<close>, and the label \<open>0\<close> otherwise. Each operation
  of the two sides of the comparison, and of the colour distance and the Sobel magnitude,
  is rounded by \<open>fl\<close>, and the statement holds for every \<open>fl\<close>: for the arithmetic
  of doubles, and for exact arithmetic, where \<open>colorDistance\<close> and \<open>sobelMagnitude\<close>
  are the closed formulas \<open>exactColorDistance\<close> and \<open>exactSobelMagnitude\<close>.
\<close>

theorem buildMask_rule:
  assumes "length data = 4 * (w * h)" "1 \<le> x" "x < w - 1" "1 \<le> y" "y < h - 1"
  shows "buildMask fl data w h avgBg (adaptiveThreshold fl variance) ! (y * w + x) =
     (if ngt (fadd fl (colorDistance fl data avgBg (y * w + x))
                (fmul fl (fdiv fl (nmin (Some 255) (sobelMagnitude fl data w x y)) (Some 255))
                   (Some 80)))
             (fadd fl (Some 32) (fmul fl (fsqrt fl variance) (Some (fl 0.7))))
      then 1 else 0)"
  unfolding buildMask_interior[OF assms] adaptiveThreshold_def combinedMetric_def Let_def ..

theorem buildMask_rule_witness:
  "length img43 = 4 * (4 * 3) \<and> (1 :: nat) \<le> 1 \<and> (1 :: nat) < 4 - 1 \<and> (1 :: nat) < 3 - 1 \<and>
   buildMask id img43 4 3 grey (adaptiveThreshold id (Some 0)) ! (1 * 4 + 1) = 1 \<and>
   length cex310 = 4 * (3 * 10) \<and> (1 :: nat) < 3 - 1 \<and> (1 :: nat) \<le> 4 \<and> (4 :: nat) < 10 - 1 \<and>
   buildMask binary64 cex310 3 10 (avgBackground binary64 cex310 3 10)
     (adaptiveThreshold binary64
        (calculateColorVariance binary64 (collectSamples cex310 3 10) (avgBackground binary64 cex310 3 10)))
     ! (4 * 3 + 1) = 1 \<and>
   ngt (fadd binary64 (colorDistance binary64 cex310 (avgBackground binary64 cex310 3 10) (4 * 3 + 1))
          (fmul binary64
             (fdiv binary64 (nmin (Some 255) (sobelMagnitude binary64 cex310 3 1 4)) (Some 255))
             (Some 80)))
       (fadd binary64 (Some 32)
          (fmul binary64
             (fsqrt binary64
                (calculateColorVariance binary64 (collectSamples cex310 3 10)
                   (avgBackground binary64 cex310 3 10)))
             (Some (binary64 0.7))))"
proof -
  have h1: "length img43 = 4 * (4 * 3)" by (simp add: img43_def)
  have h2: "(1 :: nat) \<le> 1" and h3: "(1 :: nat) < 4 - 1" and h5: "(1 :: nat) < 3 - 1" by simp_all
  have e: "0 \<le> min 255 (exactSobelMagnitude img43 4 1 1) / 255 * 80"
    by (simp add: exactSobelMagnitude_def)
  have one: "buildMask id img43 4 3 grey (adaptiveThreshold id (Some 0)) ! (1 * 4 + 1) = 1"
    unfolding buildMask_rule [OF h1 h2 h3 h2 h5] colorDistance_id sobelMagnitude_id cd5
    using e by (simp add: jsnum_simps fnum_id)
  have g1: "length cex310 = 4 * (3 * 10)" by (simp add: cex310_def)
  have g4: "(1 :: nat) \<le> 4" and g5: "(4 :: nat) < 10 - 1" by simp_all
  have e13: "(4 :: nat) * 3 + 1 = 13" by simp
  have lab: "buildMask binary64 cex310 3 10 (avgBackground binary64 cex310 3 10)
     (adaptiveThreshold binary64
        (calculateColorVariance binary64 (collectSamples cex310 3 10) (avgBackground binary64 cex310 3 10)))
     ! (4 * 3 + 1) = 1"
    unfolding e13 using cex_built_fl[OF accurate_binary64_max] by (simp add: pipelineThreshold_def)
  have cond: "ngt (fadd binary64 (colorDistance binary64 cex310 (avgBackground binary64 cex310 3 10) (4 * 3 + 1))
          (fmul binary64
             (fdiv binary64 (nmin (Some 255) (sobelMagnitude binary64 cex310 3 1 4)) (Some 255))
             (Some 80)))
       (fadd binary64 (Some 32)
          (fmul binary64
             (fsqrt binary64
                (calculateColorVariance binary64 (collectSamples cex310 3 10)
                   (avgBackground binary64 cex310 3 10)))
             (Some (binary64 0.7))))"
    by (rule if_one[OF lab[unfolded buildMask_rule [OF g1 h2 h5 g4 g5]]])
  show ?thesis by (simp only: h1 h2 h3 h5 one g1 g4 g5 lab cond simp_thms)
qed

text \<open>
  C8 (outermost-ring invariant): in the pipeline a pixel of the outermost ring is labeled
  \<open>0\<close> by the Mask Builder, by the Mask Refiner and by the Hole Filler, and its alpha
  byte is \<open>0\<close> in the output, whatever its colour. This holds for every rounding that
  keeps \<open>0\<close> and the sign of the numbers that are not negative: for the arithmetic of
  doubles, and for exact arithmetic.
\<close>

theorem ring_stays_background:
  assumes "keepsSign fl" "length data = 4 * (w * h)" "onBorder w h p"
  shows "buildMask fl data w h (avgBackground fl data w h) (pipelineThreshold fl data w h) ! p = 0 \<and>
         refineMask fl data w h (avgBackground fl data w h) (pipelineThreshold fl data w h)
           (buildMask fl data w h (avgBackground fl data w h) (pipelineThreshold fl data w h)) ! p = 0 \<and>
         improvedWatchMask fl data w h (avgBackground fl data w h) (pipelineThreshold fl data w h) ! p = 0 \<and>
         processWatchImage fl data w h ! (4 * p + 3) = 0"
proof -
  define avg where "avg = avgBackground fl data w h"
  define thr where "thr = pipelineThreshold fl data w h"
  define m1 where "m1 = buildMask fl data w h avg thr"
  define m2 where "m2 = refineMask fl data w h avg thr m1"
  have plt: "p < w * h" using assms(3) by (simp add: onBorder_def)
  have ni: "\<not> isInterior w h p" using assms(3) by (rule onBorder_not_interior)
  have l1: "length m1 = w * h" by (simp add: m1_def buildMask_length)
  have l2: "length m2 = w * h" by (simp add: m2_def refineMask_length l1)
  have b: "m1 ! p = 0"
    unfolding m1_def thr_def pipelineThreshold_def by (rule buildMask_not_interior[OF assms(1) plt ni])
  have r: "m2 ! p = 0"
    unfolding m2_def using refineMask_not_interior[OF l1 plt ni] b by simp
  have f: "improvedWatchMask fl data w h avg thr ! p = 0"
    unfolding improvedWatchMask_def m1_def[symmetric] m2_def[symmetric]
    using floodFillHoles_border[OF l2 assms(3)] r by simp
  have "processWatchImage fl data w h ! (4 * p + 3) = 0"
    using processWatchImage_alpha[OF assms(2) plt] f by (simp add: avg_def thr_def)
  with b r f show ?thesis by (simp add: m1_def m2_def avg_def thr_def)
qed

theorem ring_stays_background_witness:
  "keepsSign binary64 \<and> length img43 = 4 * (4 * 3) \<and> onBorder 4 3 0 \<and>
   img43 ! 0 = 255 \<and> img43 ! 3 = 255 \<and>
   processWatchImage binary64 img43 4 3 ! (4 * 0 + 3) = 0"
proof -
  have h0: "keepsSign binary64" by (rule keepsSign_binary64)
  have h1: "length img43 = 4 * (4 * 3)" by (simp add: img43_def)
  have h2: "onBorder 4 3 0" by (simp add: onBorder_def)
  have c: "img43 ! 0 = 255" "img43 ! 3 = 255" by (simp_all add: img43_def)
  from ring_stays_background [OF h0 h1 h2] h0 h1 h2 c show ?thesis by blast
qed

text \<open>
  C5 (uniform-image sanity): when every pixel of the image has the same RGB colour, every
  pixel of the output has alpha \<open>0\<close>. This holds for every accurate rounding that is
  exact on the integers up to \<open>255\<close> times the number of samples: for exact arithmetic,
  and for the arithmetic of doubles on every image with fewer than \<open>2 ^ 53 div 255\<close>
  samples.
\<close>

theorem uniform_image_transparent:
  assumes "accurate fl N" "765 \<le> N" "255 * length (sampleCoords w h) \<le> N"
    and "length data = 4 * (w * h)" "isUniform data (w * h) cr cg cb" "p < w * h"
  shows "processWatchImage fl data w h ! (4 * p + 3) = 0"
  by (rule uniform_alpha[OF assms])

theorem uniform_image_transparent_witness:
  "accurate binary64 9007199254740991 \<and> (765 :: nat) \<le> 9007199254740991 \<and>
   255 * length (sampleCoords 3 10) \<le> 9007199254740991 \<and>
   length uni310 = 4 * (3 * 10) \<and> isUniform uni310 (3 * 10) 50 60 70 \<and> (16 :: nat) < 3 * 10 \<and>
   uni310 ! (4 * 16 + 3) = 255 \<and> processWatchImage binary64 uni310 3 10 ! (4 * 16 + 3) = 0"
proof -
  have a1: "accurate binary64 9007199254740991" by (rule accurate_binary64_max)
  have a2: "(765 :: nat) \<le> 9007199254740991" by simp
  have a3: "255 * length (sampleCoords 3 10) \<le> 9007199254740991"
    by (simp add: sampleCoords_def borderWidth_def upt_rec)
  have h1: "length uni310 = 4 * (3 * 10)" by (simp add: uni310_def)
  have h2: "isUniform uni310 (3 * 10) 50 60 70" by (simp add: isUniform_def uni310_def upt_rec)
  have h3: "(16 :: nat) < 3 * 10" by simp
  have c: "uni310 ! (4 * 16 + 3) = 255" by (simp add: uni310_def)
  from uniform_image_transparent [OF a1 a2 a3 h1 h2 h3] a1 a2 a3 h1 h2 h3 c show ?thesis by blast
qed

text \<open>
  C9 (Border Sampler on degenerate input) does not hold of the code. The loop over the
  top and bottom bands runs \<open>y\<close> over \<open>[0, b)\<close> with \<open>b \<ge> 10\<close> and never compares
  \<open>y\<close> with the height, where the loop over the side bands is bounded by
  \<open>height - b\<close>. For every image with fewer than ten rows the sampler reads the position
  \<open>(0, height)\<close>, which is past the end of the buffer; the sample is \<^verbatim>\<open>undefined\<close>,
  the BackgroundColor and the threshold are \<^verbatim>\<open>NaN\<close>, and every pixel of the output
  has alpha \<open>0\<close>, whatever the image shows.
\<close>

theorem sampler_reads_past_buffer:
  assumes "1 \<le> w" "1 \<le> h" "h < 10" "length data = 4 * (w * h)"
  shows "(0, int h) \<in> set (sampleCoords w h) \<and> \<not> sampleInBounds w h (0, int h) \<and>
         r (sampleAt data w (0, int h)) = None \<and>
         r (avgBackground fl data w h) = None \<and> pipelineThreshold fl data w h = None \<and>
         (\<forall>p < w * h. processWatchImage fl data w h ! (4 * p + 3) = 0)"
  using sampler_out_of_bounds[OF assms(1,3)] sample_below_image[OF assms(4)]
    short_image_NaN[OF assms(1,3,4)] short_image_erased[OF assms(1,3,4)]
  by blast

theorem sampler_reads_past_buffer_witness:
  "(1 :: nat) \<le> 3 \<and> (3 :: nat) < 10 \<and> length red33 = 4 * (3 * 3) \<and>
   (0, int 3) \<in> set (sampleCoords 3 3) \<and> \<not> sampleInBounds 3 3 (0, int 3) \<and>
   r (sampleAt red33 3 (0, int 3)) = None \<and> r (avgBackground id red33 3 3) = None \<and>
   red33 ! (4 * 4 + 3) = 255 \<and> processWatchImage id red33 3 3 ! (4 * 4 + 3) = 0"
proof -
  have h1: "(1 :: nat) \<le> 3" and h2: "(3 :: nat) < 10" by simp_all
  have h3: "length red33 = 4 * (3 * 3)" by (simp add: red33_def)
  have c: "red33 ! (4 * 4 + 3) = 255" by (simp add: red33_def)
  have p: "(4 :: nat) < 3 * 3" by simp
  note run = sampler_reads_past_buffer [OF h1 h1 h2 h3, of id]
  from run p have out: "processWatchImage id red33 3 3 ! (4 * 4 + 3) = 0" by blast
  from run h1 h2 h3 c out show ?thesis by blast
qed

text \<open>
  C2 (border reachability), with the condition the code has: for a rounding that keeps
  \<open>0\<close> and the sign of the numbers that are not negative, a pixel of the sampled
  border band ends with alpha \<open>0\<close> exactly when it lies on the outermost ring or a
  chain of 4-adjacent calm pixels joins it to the ring, and keeps its alpha otherwise.
  A pixel is calm when its combined metric (colour distance plus edge term) does not
  exceed the adaptive threshold and the refiner does not promote it: it has no 8-neighbour
  whose combined metric exceeds the threshold, or it is neither gold-like nor further
  than half the threshold from the BackgroundColor in a channel.
\<close>

theorem band_pixel_background:
  assumes "keepsSign fl" "length data = 4 * (w * h)" "p < w * h"
    and "(int (p mod w), int (p div w)) \<in> set (sampleCoords w h)"
  shows "processWatchImage fl data w h ! (4 * p + 3) =
           (if p \<in> ringConnected fl data w h then 0 else data ! (4 * p + 3))"
  by (rule alpha_ringConnected[OF assms(1,2,3)])

theorem band_pixel_background_witness:
  "keepsSign binary64 \<and> length cex310 = 4 * (3 * 10) \<and> (22 :: nat) < 3 * 10 \<and>
   (int (22 mod 3), int (22 div 3)) \<in> set (sampleCoords 3 10) \<and>
   22 \<in> ringConnected binary64 cex310 3 10 \<and>
   cex310 ! (4 * 22 + 3) = 255 \<and> processWatchImage binary64 cex310 3 10 ! (4 * 22 + 3) = 0"
proof -
  have h0: "keepsSign binary64" by (rule keepsSign_binary64)
  have len: "length cex310 = 4 * (3 * 10)" by (simp add: cex310_def)
  have lt: "(22 :: nat) < 3 * 10" by simp
  have "(1, 7) \<in> set (sampleCoords 3 10)"
    unfolding sampleCoords_set by (auto simp: borderWidth_def intro!: exI[of _ 1] exI[of _ 7])
  then have band: "(int (22 mod 3), int (22 div 3)) \<in> set (sampleCoords 3 10)" by simp
  have rc: "22 \<in> ringConnected binary64 cex310 3 10"
    by (rule cex_ringConnected_fl[OF accurate_binary64_max]) simp
  have a: "cex310 ! (4 * 22 + 3) = 255" by (simp add: cex310_def)
  from band_pixel_background [OF h0 len lt band] rc
  have "processWatchImage binary64 cex310 3 10 ! (4 * 22 + 3) = 0" by (simp only: if_True)
  with h0 len lt band rc a show ?thesis by blast
qed

text \<open>
  C2 as the claim words it fails on the 3 x 10 image above: the black pixel \<open>(1, 4)\<close>
  is in the sampled band and its weighted distance to the BackgroundColor
  \<open>(20, 0, 0)\<close> is within the threshold (in exact arithmetic \<open>sqrt 120\<close> against
  \<open>74\<close>), but the red pixels to its left give it the full edge term \<open>80\<close>, the Mask
  Builder labels it foreground, and its alpha stays \<open>255\<close>, in exact arithmetic and in
  the arithmetic of doubles.
\<close>

theorem band_pixel_counterexample:
  "(1, 4) \<in> set (sampleCoords 3 10) \<and>
   avgBackground id cex310 3 10 = \<lparr>r = Some 20, g = Some 0, b = Some 0\<rparr> \<and>
   pipelineThreshold id cex310 3 10 = Some 74 \<and>
   cex310 ! (4 * 13) = 0 \<and> cex310 ! (4 * 13 + 1) = 0 \<and> cex310 ! (4 * 13 + 2) = 0 \<and>
   exactColorDistance cex310 (avgBackground id cex310 3 10) 13 = Some (sqrt 120) \<and> sqrt 120 < 74 \<and>
   processWatchImage id cex310 3 10 ! (4 * 13 + 3) = 255 \<and>
   (\<exists>c t. colorDistance binary64 cex310 (avgBackground binary64 cex310 3 10) 13 = Some c \<and>
          pipelineThreshold binary64 cex310 3 10 = Some t \<and> c < t) \<and>
   processWatchImage binary64 cex310 3 10 ! (4 * 13 + 3) = 255"
proof -
  have n: "(216000 :: nat) \<le> 9007199254740991" by simp
  have "sqrt 120 < sqrt (74\<^sup>2)" by (simp only: real_sqrt_less_iff) simp
  then have lt: "sqrt 120 < 74" by simp
  have px: "cex310 ! (4 * 13) = 0" "cex310 ! (4 * 13 + 1) = 0" "cex310 ! (4 * 13 + 2) = 0"
    by (simp_all add: cex310_def)
  have avg: "avgBackground id cex310 3 10 = \<lparr>r = Some 20, g = Some 0, b = Some 0\<rparr>"
    by (rule cex_avg_fl[OF accurate_id le_refl])
  have cd: "exactColorDistance cex310 (avgBackground id cex310 3 10) 13 = Some (sqrt 120)"
    unfolding avg by (rule cex_cd)
  have out: "processWatchImage id cex310 3 10 ! (4 * 13 + 3) = 255"
    by (rule cex_alpha_fl[OF accurate_id le_refl])
  obtain t where t: "pipelineThreshold binary64 cex310 3 10 = Some t" "739 / 10 \<le> t"
    using cex_thr_fl[OF accurate_binary64_max n] by blast
  obtain c where c: "colorDistance binary64 cex310 \<lparr>r = Some 20, g = Some 0, b = Some 0\<rparr> 13 = Some c"
    "c \<le> 111 / 10"
    using black_distance_fl[OF accurate_binary64_max n cex_black(1,2,3)] by blast
  have "c < t" using t(2) c(2) by linarith
  then have dbl: "\<exists>c t. colorDistance binary64 cex310 (avgBackground binary64 cex310 3 10) 13 = Some c \<and>
          pipelineThreshold binary64 cex310 3 10 = Some t \<and> c < t"
    using t(1) c(1) unfolding cex_avg_fl[OF accurate_binary64_max n] by blast
  have out64: "processWatchImage binary64 cex310 3 10 ! (4 * 13 + 3) = 255"
    by (rule cex_alpha_fl[OF accurate_binary64_max n])
  show ?thesis
    using cex_in_band avg cex_thr px cd lt out dbl out64 by blast
qed


end
